theory Spec2Isabelle
  imports Main "HOL-Library.AList"
begin

section \<open>Data model of \<open>ragflow_uploader.py\<close>\<close>

text \<open>
  The uploader talks to two things it does not own: the RAGFlow service (through the
  SDK objects \<open>self.rag\<close> and \<open>dataset\<close>) and the file system (through
  \<open>pathlib.Path\<close> and \<open>open\<close>). Both are modelled as one external world of an
  arbitrary type \<open>'w\<close>: every call takes the current world, and gives a reply and the
  next world. Nothing is assumed about how the world answers, so a reply may depend on
  everything that was done before. Every call is appended, with its reply, to a trace.

  Exceptions are values of \<open>exn\<close>; all of them are subclasses of Python's
  \<open>Exception\<close>, which is what the \<open>except Exception\<close> clauses of the source
  catch (\<open>KeyboardInterrupt\<close> is not one and is not modelled).
\<close>

type_synonym path = "string list"
  \<comment> \<open>a \<open>pathlib.Path\<close>, as the list of its components\<close>

type_synonym bytes = "char list"

datatype exn =
    TypeError
  | ValueError
  | AttributeError
  | FileNotFoundError path
  | NotADirectoryError path
  | OtherError string

record dataset =
  ds_id :: "string option"   \<comment> \<open>\<open>None\<close>: the object has no attribute \<open>id\<close>\<close>
  ds_name :: string

record document =
  doc_id :: "string option"             \<comment> \<open>\<open>None\<close>: no attribute \<open>id\<close>\<close>
  doc_name :: "string option"           \<comment> \<open>\<open>None\<close>: no attribute \<open>name\<close>\<close>
  doc_display_name :: "string option"   \<comment> \<open>\<open>None\<close>: no attribute \<open>display_name\<close>\<close>

record upload_doc =
  display_name :: string
  blob :: bytes

text \<open>The calls the program makes on the world, each with the reply it got.\<close>

datatype event =
    ListDatasets string "exn + dataset list"
  | CreateDataset string string string string "exn + dataset"
  | ListDocumentsPaged dataset nat nat "exn + document list"
  | ListDocuments dataset "exn + document list"
  | UploadDocuments dataset "upload_doc list" "exn + unit"
  | AsyncParseDocuments dataset "string list" "exn + unit"
  | PathExists path bool
  | PathIsDir path bool
  | Rglob path "(path \<times> bool) list"
  | ReadBytes path "exn + bytes"

record 'w client =
  list_datasets :: "string \<Rightarrow> 'w \<Rightarrow> (exn + dataset list) \<times> 'w"
  create_dataset :: "string \<Rightarrow> string \<Rightarrow> string \<Rightarrow> string \<Rightarrow> 'w \<Rightarrow> (exn + dataset) \<times> 'w"
  list_documents_paged :: "dataset \<Rightarrow> nat \<Rightarrow> nat \<Rightarrow> 'w \<Rightarrow> (exn + document list) \<times> 'w"
  list_documents :: "dataset \<Rightarrow> 'w \<Rightarrow> (exn + document list) \<times> 'w"
  upload_documents :: "dataset \<Rightarrow> upload_doc list \<Rightarrow> 'w \<Rightarrow> (exn + unit) \<times> 'w"
  async_parse_documents :: "dataset \<Rightarrow> string list \<Rightarrow> 'w \<Rightarrow> (exn + unit) \<times> 'w"
  path_exists :: "path \<Rightarrow> 'w \<Rightarrow> bool \<times> 'w"
  path_is_dir :: "path \<Rightarrow> 'w \<Rightarrow> bool \<times> 'w"
  rglob :: "path \<Rightarrow> 'w \<Rightarrow> (path \<times> bool) list \<times> 'w"
  read_bytes :: "path \<Rightarrow> 'w \<Rightarrow> (exn + bytes) \<times> 'w"

text \<open>
  Output. The messages of the source are Chinese text with values interpolated; each is
  a constructor here, carrying the interpolated values, and named after the line of the
  source that writes it. Elapsed times are left out of the messages. \<open>logger.debug\<close>
  lines reach only the log file and decide nothing; they are not modelled.
\<close>

datatype level = INFO | SUCCESS | WARNING | ERROR

datatype dataset_msg =
    DatasetBegin string                 \<comment> \<open>line 91\<close>
  | DatasetFound string                 \<comment> \<open>line 98\<close>
  | DatasetMissing string               \<comment> \<open>line 101\<close>
  | DatasetLookupError exn              \<comment> \<open>line 103\<close>
  | DatasetCreating string              \<comment> \<open>line 107\<close>
  | DatasetCreated string string        \<comment> \<open>line 114\<close>
  | DatasetCreateFailed exn             \<comment> \<open>line 117\<close>

datatype existing_msg =
    ExistingBegin                       \<comment> \<open>line 130\<close>
  | PageLimitReached                    \<comment> \<open>line 173\<close>
  | ExistingCount nat                   \<comment> \<open>line 176\<close>
  | ExistingListHeader                  \<comment> \<open>line 180\<close>
  | ExistingName string                 \<comment> \<open>line 182\<close>
  | ExistingMany nat                    \<comment> \<open>line 184\<close>
  | ExistingFailed exn                  \<comment> \<open>line 189\<close>

datatype scan_msg =
    ScanBegin path                      \<comment> \<open>line 223\<close>
  | DirMissing path                     \<comment> \<open>line 227\<close>
  | NotADir path                        \<comment> \<open>line 231\<close>
  | ScanDone nat nat                    \<comment> \<open>line 246\<close>
  | ManyFiles nat                       \<comment> \<open>line 253\<close>

datatype upload_msg =
    UploadBegin nat int bool            \<comment> \<open>line 273\<close>
  | ExistingFound nat                   \<comment> \<open>line 280\<close>
  | SkipFile string                     \<comment> \<open>line 288\<close>
  | SkipCount nat nat                   \<comment> \<open>line 293\<close>
  | NothingNew                          \<comment> \<open>line 296\<close>
  | BatchBegin nat nat                  \<comment> \<open>line 305\<close>
  | ReadFailed path exn                 \<comment> \<open>lines 323, 324\<close>
  | BatchUploading nat nat              \<comment> \<open>line 332\<close>
  | FileUploaded string                 \<comment> \<open>line 343\<close>
  | BatchUploaded nat nat               \<comment> \<open>lines 345, 346\<close>
  | BatchFailed nat exn                 \<comment> \<open>lines 349, 350\<close>
  | FileFailed string                   \<comment> \<open>line 355\<close>

datatype summary_msg =
    Rule                                \<comment> \<open>lines 362, 375\<close>
  | SummaryTitle                        \<comment> \<open>line 363\<close>
  | SummaryTotal nat                    \<comment> \<open>line 364\<close>
  | SummarySkipped nat                  \<comment> \<open>lines 366, 379\<close>
  | SummaryAttempted nat                \<comment> \<open>line 367\<close>
  | SummarySucceeded nat                \<comment> \<open>lines 368, 380\<close>
  | SummaryFailed nat                   \<comment> \<open>lines 369, 382\<close>
  | SummaryElapsed                      \<comment> \<open>line 370\<close>
  | SummaryAverage                      \<comment> \<open>line 372\<close>
  | SummaryAverageZero                  \<comment> \<open>line 374\<close>
  | UploadDone                          \<comment> \<open>line 377\<close>
  | FailedHeader                        \<comment> \<open>lines 383, 384\<close>
  | FailedFile string                   \<comment> \<open>lines 386, 387\<close>
  | SkippedHeader                       \<comment> \<open>line 391\<close>
  | SkippedFile string                  \<comment> \<open>line 393\<close>

datatype parse_msg =
    ParseBegin                          \<comment> \<open>line 402\<close>
  | ParseNothing                        \<comment> \<open>lines 410, 411\<close>
  | ParseFound nat                      \<comment> \<open>line 416\<close>
  | ParseStarting nat                   \<comment> \<open>lines 423, 424\<close>
  | ParseStarted nat                    \<comment> \<open>line 428\<close>
  | ParseStartedNote                    \<comment> \<open>line 429\<close>
  | ParseFailed exn                     \<comment> \<open>lines 432, 433\<close>

datatype main_msg =
    LogFileSet                          \<comment> \<open>line 79\<close>
  | Connected string                    \<comment> \<open>line 43\<close>
  | ParamsHeader                        \<comment> \<open>line 507\<close>
  | ParamApiKey string                  \<comment> \<open>line 508\<close>
  | ParamBaseUrl string                 \<comment> \<open>line 509\<close>
  | ParamDatasetName string             \<comment> \<open>line 510\<close>
  | ParamDirectory path                 \<comment> \<open>line 511\<close>
  | ParamBatchSize int                  \<comment> \<open>line 512\<close>
  | ParamAutoParse bool                 \<comment> \<open>line 513\<close>
  | ParamLogFile "string option"        \<comment> \<open>line 514\<close>
  | NoFilesFound                        \<comment> \<open>lines 523, 524\<close>
  | ParseSkipped                        \<comment> \<open>line 534\<close>
  | ParseSkippedNote                    \<comment> \<open>line 535\<close>
  | ScriptDone                          \<comment> \<open>lines 541, 542\<close>
  | RunError exn                        \<comment> \<open>lines 549, 550\<close>

datatype msg =
    OfDataset dataset_msg
  | OfExisting existing_msg
  | OfScan scan_msg
  | OfUpload upload_msg
  | OfSummary summary_msg
  | OfParse parse_msg
  | OfMain main_msg

datatype out_line = Log level msg | Print msg

record 'w state =
  world :: 'w
  trace :: "event list"
  out :: "out_line list"

definition emit :: "out_line \<Rightarrow> 'w state \<Rightarrow> 'w state" where
  "emit x s = s\<lparr>out := out s @ [x]\<rparr>"

definition emits :: "out_line list \<Rightarrow> 'w state \<Rightarrow> 'w state" where
  "emits xs s = s\<lparr>out := out s @ xs\<rparr>"

definition perform :: "('w \<Rightarrow> 'r \<times> 'w) \<Rightarrow> ('r \<Rightarrow> event) \<Rightarrow> 'w state \<Rightarrow> 'r \<times> 'w state" where
  "perform f ev s =
     (case f (world s) of (r, w') \<Rightarrow> (r, s\<lparr>world := w', trace := trace s @ [ev r]\<rparr>))"


section \<open>Paths and file names\<close>

definition path_name :: "path \<Rightarrow> string" where
  \<comment> \<open>\<open>file_path.name\<close>: the last component\<close>
  "path_name p = (if p = [] then [] else last p)"

fun path_str :: "path \<Rightarrow> string" where
  \<comment> \<open>\<open>str(file_path)\<close>: the components joined by \<open>/\<close>\<close>
  "path_str [] = ''.''"
| "path_str [x] = x"
| "path_str (x # y # ys) = x @ ''/'' @ path_str (y # ys)"

fun rfind_dot :: "string \<Rightarrow> nat option" where
  \<comment> \<open>\<open>name.rfind('.')\<close>: the index of the last dot\<close>
  "rfind_dot [] = None"
| "rfind_dot (c # cs) =
     (case rfind_dot cs of
        Some i \<Rightarrow> Some (Suc i)
      | None \<Rightarrow> if c = CHR ''.'' then Some 0 else None)"

definition suffix :: "path \<Rightarrow> string" where
  \<comment> \<open>\<open>Path.suffix\<close>: from the last dot of the name, unless the dot is first or last\<close>
  "suffix p =
     (let name = path_name p in
      case rfind_dot name of
        None \<Rightarrow> []
      | Some i \<Rightarrow> if 0 < i \<and> i + 1 < length name then drop i name else [])"

definition lower_char :: "char \<Rightarrow> char" where
  "lower_char c =
     (let n = (of_char c :: nat) in if 65 \<le> n \<and> n \<le> 90 then char_of (n + 32) else c)"

definition supported_extensions :: "string list" where
  "supported_extensions =
     [''.txt'', ''.md'', ''.pdf'', ''.doc'', ''.docx'',
      ''.ppt'', ''.pptx'', ''.xls'', ''.xlsx'', ''.csv'',
      ''.html'', ''.htm'', ''.json'', ''.xml'', ''.rtf'']"

definition is_supported_file :: "path \<Rightarrow> bool" where
  "is_supported_file file_path =
     (let file_ext = map lower_char (suffix file_path)
      in file_ext \<in> set supported_extensions)"

section \<open>\<open>get_or_create_dataset\<close>\<close>

definition description_prefix :: string where
  \<comment> \<open>the UTF-8 bytes of the text before \<open>{dataset_name}\<close> on line 110\<close>
  "description_prefix = map char_of
     [233, 128, 154, 232, 191, 135, 232, 132, 154, 230, 156, 172, 232, 135, 170, 229, 138,
      168, 229, 136, 155, 229, 187, 186, 231, 154, 132, 231, 159, 165, 232, 175, 134, 229,
      186, 147, 239, 188, 154 :: nat]"

definition get_or_create_dataset ::
  "'w client \<Rightarrow> string \<Rightarrow> 'w state \<Rightarrow> (exn + dataset) \<times> 'w state" where
  "get_or_create_dataset c dataset_name s0 =
     (let s1 = emit (Log INFO (OfDataset (DatasetBegin dataset_name))) s0 in
      case perform (list_datasets c dataset_name) (ListDatasets dataset_name) s1 of
        (Inr (d # ds), s2) \<Rightarrow>
          (Inr d, emit (Log SUCCESS (OfDataset (DatasetFound dataset_name))) s2)
      | (found, s2) \<Rightarrow>
          (let s3 = (case found of
                       Inl e \<Rightarrow> emit (Log ERROR (OfDataset (DatasetLookupError e))) s2
                     | Inr _ \<Rightarrow> emit (Log INFO (OfDataset (DatasetMissing dataset_name))) s2);
               s4 = emit (Log INFO (OfDataset (DatasetCreating dataset_name))) s3;
               description = description_prefix @ dataset_name
           in case perform (create_dataset c dataset_name description ''naive'' ''me'')
                     (CreateDataset dataset_name description ''naive'' ''me'') s4 of
                (Inr d, s5) \<Rightarrow>
                  (Inr d,
                   emit (Log SUCCESS (OfDataset (DatasetCreated dataset_name
                     (case ds_id d of Some i \<Rightarrow> i | None \<Rightarrow> ''Unknown'')))) s5)
              | (Inl e, s5) \<Rightarrow>
                  (Inl e, emit (Log ERROR (OfDataset (DatasetCreateFailed e))) s5)))"

section \<open>\<open>get_existing_documents\<close>\<close>

definition doc_key :: "document \<Rightarrow> exn + string" where
  \<comment> \<open>\<open>getattr(doc, 'name', getattr(doc, 'display_name', f'unknown_{doc.id}'))\<close>: Python
      evaluates the defaults first, so \<open>doc.id\<close> is read in every case\<close>
  "doc_key doc =
     (case doc_id doc of
        None \<Rightarrow> Inl AttributeError
      | Some i \<Rightarrow>
          Inr (case doc_name doc of
                 Some n \<Rightarrow> n
               | None \<Rightarrow> (case doc_display_name doc of
                            Some n \<Rightarrow> n
                          | None \<Rightarrow> ''unknown_'' @ i)))"

fun add_documents ::
  "document list \<Rightarrow> (string \<times> document) list \<Rightarrow> exn + (string \<times> document) list" where
  \<comment> \<open>the loops of lines 147-150 and 158-162; the dictionary keeps insertion order\<close>
  "add_documents [] existing_docs = Inr existing_docs"
| "add_documents (doc # docs) existing_docs =
     (case doc_key doc of
        Inl e \<Rightarrow> Inl e
      | Inr name \<Rightarrow> add_documents docs (AList.update name doc existing_docs))"

function fetch_pages ::
  "'w client \<Rightarrow> dataset \<Rightarrow> nat \<Rightarrow> (string \<times> document) list \<Rightarrow> 'w state
     \<Rightarrow> (exn + (string \<times> document) list) \<times> 'w state" where
  \<comment> \<open>the \<open>while True\<close> loop of lines 136-174, entered with \<open>page\<close> and \<open>existing_docs\<close>\<close>
  "fetch_pages c ds page existing_docs s =
     (let page_size = 50 in
      case perform (list_documents_paged c ds page page_size)
             (ListDocumentsPaged ds page page_size) s of
        (Inl TypeError, s1) \<Rightarrow>
          (case perform (list_documents c ds) (ListDocuments ds) s1 of
             (Inl e, s2) \<Rightarrow> (Inl e, s2)
           | (Inr documents, s2) \<Rightarrow> (add_documents documents existing_docs, s2))
      | (Inl e, s1) \<Rightarrow> (Inl e, s1)
      | (Inr documents, s1) \<Rightarrow>
          if documents = [] then (Inr existing_docs, s1)
          else (case add_documents documents existing_docs of
                  Inl e \<Rightarrow> (Inl e, s1)
                | Inr existing_docs' \<Rightarrow>
                    if length documents < page_size then (Inr existing_docs', s1)
                    else if page + 1 > 1000
                    then (Inr existing_docs',
                          emit (Log WARNING (OfExisting PageLimitReached)) s1)
                    else fetch_pages c ds (page + 1) existing_docs' s1))"
  by pat_completeness auto
termination
  by (relation "measure (\<lambda>(c, ds, page, existing_docs, s). 1001 - page)") auto

declare fetch_pages.simps [simp del]

definition get_existing_documents ::
  "'w client \<Rightarrow> dataset \<Rightarrow> 'w state \<Rightarrow> (string \<times> document) list \<times> 'w state" where
  "get_existing_documents c ds s0 =
     (let s1 = emit (Log INFO (OfExisting ExistingBegin)) s0 in
      case fetch_pages c ds 1 [] s1 of
        (Inr existing_docs, s2) \<Rightarrow>
          (existing_docs,
           emits (Log INFO (OfExisting (ExistingCount (length existing_docs))) #
                  (if length existing_docs \<le> 20
                   then Log INFO (OfExisting ExistingListHeader) #
                        map (\<lambda>doc_name. Log INFO (OfExisting (ExistingName doc_name)))
                          (map fst existing_docs)
                   else [Log INFO (OfExisting (ExistingMany (length existing_docs)))])) s2)
      | (Inl e, s2) \<Rightarrow> ([], emit (Log ERROR (OfExisting (ExistingFailed e))) s2))"

section \<open>\<open>get_files_from_directory\<close>\<close>

text \<open>
  \<open>directory.rglob('*')\<close> and the \<open>is_file()\<close> test of each entry are one call
  on the world, whose reply lists every entry with the result of its test.
\<close>

definition get_files_from_directory ::
  "'w client \<Rightarrow> path \<Rightarrow> 'w state \<Rightarrow> (exn + path list) \<times> 'w state" where
  "get_files_from_directory c directory s0 =
     (let s1 = emit (Log INFO (OfScan (ScanBegin directory))) s0 in
      case perform (path_exists c directory) (PathExists directory) s1 of
        (False, s2) \<Rightarrow>
          (Inl (FileNotFoundError directory),
           emit (Log ERROR (OfScan (DirMissing directory))) s2)
      | (True, s2) \<Rightarrow>
          (case perform (path_is_dir c directory) (PathIsDir directory) s2 of
             (False, s3) \<Rightarrow>
               (Inl (NotADirectoryError directory),
                emit (Log ERROR (OfScan (NotADir directory))) s3)
           | (True, s3) \<Rightarrow>
               (case perform (rglob c directory) (Rglob directory) s3 of
                  (entries, s4) \<Rightarrow>
                    (let scanned = map fst (filter snd entries);
                         files = filter is_supported_file scanned
                     in (Inr files,
                         emits (Log INFO (OfScan (ScanDone (length scanned) (length files))) #
                                (if length files \<le> 50 then []
                                 else [Log INFO (OfScan (ManyFiles (length files)))])) s4)))))"

section \<open>\<open>upload_files\<close>\<close>

text \<open>
  \<open>upload_files\<close> returns nothing; its statistics are local variables. The model
  returns them as they stand when the function returns.
\<close>

record upload_stats =
  total_files :: nat
  skipped_files :: "string list"
  files_to_upload :: "path list"
  successful_uploads :: nat
  failed_uploads :: "string list"

fun filter_files ::
  "bool \<Rightarrow> (string \<times> document) list \<Rightarrow> path list \<Rightarrow> path list \<times> string list \<Rightarrow> 'w state
     \<Rightarrow> (path list \<times> string list) \<times> 'w state" where
  \<comment> \<open>the loop of lines 284-290, on the lists \<open>files_to_upload\<close> and \<open>skipped_files\<close>\<close>
  "filter_files skip existing_docs [] acc s = (acc, s)"
| "filter_files skip existing_docs (file_path # rest) (to_upload, skipped) s =
     (let file_name = path_name file_path in
      if skip \<and> file_name \<in> fst ` set existing_docs
      then filter_files skip existing_docs rest (to_upload, skipped @ [path_str file_path])
             (emit (Log INFO (OfUpload (SkipFile file_name))) s)
      else filter_files skip existing_docs rest (to_upload @ [file_path], skipped) s)"

fun prepare_batch ::
  "'w client \<Rightarrow> path list \<Rightarrow> upload_doc list \<Rightarrow> string list \<Rightarrow> 'w state
     \<Rightarrow> (upload_doc list \<times> string list) \<times> 'w state" where
  \<comment> \<open>the loop of lines 308-326, on the lists \<open>batch_documents\<close> and \<open>failed_uploads\<close>\<close>
  "prepare_batch c [] batch_documents failed s = ((batch_documents, failed), s)"
| "prepare_batch c (file_path # rest) batch_documents failed s =
     (case perform (read_bytes c file_path) (ReadBytes file_path) s of
        (Inr file_content, s1) \<Rightarrow>
          prepare_batch c rest
            (batch_documents @ [\<lparr>display_name = path_name file_path, blob = file_content\<rparr>])
            failed s1
      | (Inl e, s1) \<Rightarrow>
          prepare_batch c rest batch_documents (failed @ [path_str file_path])
            (emits [Log ERROR (OfUpload (ReadFailed file_path e)),
                    Print (OfUpload (ReadFailed file_path e))] s1))"

definition upload_batch ::
  "'w client \<Rightarrow> dataset \<Rightarrow> path list \<Rightarrow> nat \<Rightarrow> nat \<Rightarrow> nat \<times> string list \<Rightarrow> 'w state
     \<Rightarrow> (nat \<times> string list) \<times> 'w state" where
  \<comment> \<open>one turn of the loop of line 300, at index \<open>i\<close>, on \<open>successful_uploads\<close> and
      \<open>failed_uploads\<close>\<close>
  "upload_batch c ds to_upload b i acc s0 =
     (case acc of (successful, failed) \<Rightarrow>
      let batch_num = i div b + 1;
          batch_files = take b (drop i to_upload);
          s1 = emit (Log INFO (OfUpload (BatchBegin batch_num (length batch_files)))) s0
      in case prepare_batch c batch_files [] failed s1 of
           ((batch_documents, failed1), s2) \<Rightarrow>
             if batch_documents \<noteq> [] then
               (let n = length batch_documents;
                    s3 = emit (Log INFO (OfUpload (BatchUploading batch_num n))) s2
                in case perform (upload_documents c ds batch_documents)
                          (UploadDocuments ds batch_documents) s3 of
                     (Inr u, s4) \<Rightarrow>
                       ((successful + n, failed1),
                        emits (map (\<lambda>doc. Log SUCCESS (OfUpload (FileUploaded (display_name doc))))
                                 batch_documents @
                               [Log SUCCESS (OfUpload (BatchUploaded batch_num n)),
                                Print (OfUpload (BatchUploaded batch_num n))]) s4)
                   | (Inl e, s4) \<Rightarrow>
                       ((successful, failed1 @ map display_name batch_documents),
                        emits ([Log ERROR (OfUpload (BatchFailed batch_num e)),
                                Print (OfUpload (BatchFailed batch_num e))] @
                               map (\<lambda>doc. Log ERROR (OfUpload (FileFailed (display_name doc))))
                                 batch_documents) s4))
             else ((successful, failed1), s2))"

fun upload_batches ::
  "'w client \<Rightarrow> dataset \<Rightarrow> path list \<Rightarrow> nat \<Rightarrow> nat list \<Rightarrow> nat \<times> string list \<Rightarrow> 'w state
     \<Rightarrow> (nat \<times> string list) \<times> 'w state" where
  \<comment> \<open>the loop of line 300 over the indices the range gives\<close>
  "upload_batches c ds to_upload b [] acc s = (acc, s)"
| "upload_batches c ds to_upload b (i # rest) acc s =
     (case upload_batch c ds to_upload b i acc s of
        (acc', s') \<Rightarrow> upload_batches c ds to_upload b rest acc' s')"

function range_from :: "nat \<Rightarrow> nat \<Rightarrow> nat \<Rightarrow> nat list" where
  \<comment> \<open>\<open>range(i, n, b)\<close> for a positive step\<close>
  "range_from i n b = (if 0 < b \<and> i < n then i # range_from (i + b) n b else [])"
  by pat_completeness auto
termination
  by (relation "measure (\<lambda>(i, n, b). n - i)") auto

declare range_from.simps [simp del]

definition py_range0 :: "nat \<Rightarrow> int \<Rightarrow> exn + nat list" where
  \<comment> \<open>\<open>range(0, n, step)\<close>: a zero step raises, a negative one gives nothing\<close>
  "py_range0 n step =
     (if step = 0 then Inl ValueError
      else if step < 0 then Inr []
      else Inr (range_from 0 n (nat step)))"

definition summary :: "upload_stats \<Rightarrow> out_line list" where
  \<comment> \<open>lines 361-393\<close>
  "summary st =
     [Log INFO (OfSummary Rule),
      Log INFO (OfSummary SummaryTitle),
      Log INFO (OfSummary (SummaryTotal (total_files st)))] @
     (if skipped_files st \<noteq> []
      then [Log INFO (OfSummary (SummarySkipped (length (skipped_files st))))] else []) @
     [Log INFO (OfSummary (SummaryAttempted (length (files_to_upload st)))),
      Log INFO (OfSummary (SummarySucceeded (successful_uploads st))),
      Log INFO (OfSummary (SummaryFailed (length (failed_uploads st)))),
      Log INFO (OfSummary SummaryElapsed),
      (if length (files_to_upload st) > 0
       then Log INFO (OfSummary SummaryAverage)
       else Log INFO (OfSummary SummaryAverageZero)),
      Log INFO (OfSummary Rule),
      Print (OfSummary UploadDone)] @
     (if skipped_files st \<noteq> []
      then [Print (OfSummary (SummarySkipped (length (skipped_files st))))] else []) @
     [Print (OfSummary (SummarySucceeded (successful_uploads st)))] @
     (if failed_uploads st \<noteq> []
      then [Print (OfSummary (SummaryFailed (length (failed_uploads st)))),
            Log WARNING (OfSummary FailedHeader),
            Print (OfSummary FailedHeader)] @
           concat (map (\<lambda>failed_file. [Log ERROR (OfSummary (FailedFile failed_file)),
                                       Print (OfSummary (FailedFile failed_file))])
                     (failed_uploads st))
      else []) @
     (if skipped_files st \<noteq> []
      then Log INFO (OfSummary SkippedHeader) #
           map (\<lambda>skipped_file. Log INFO (OfSummary (SkippedFile skipped_file)))
             (skipped_files st)
      else [])"

definition upload_files ::
  "'w client \<Rightarrow> dataset \<Rightarrow> path list \<Rightarrow> int \<Rightarrow> bool \<Rightarrow> 'w state
     \<Rightarrow> (exn + upload_stats) \<times> 'w state" where
  "upload_files c ds file_paths batch_size skip_existing s0 =
     (let s1 = emit (Log INFO (OfUpload
                  (UploadBegin (length file_paths) batch_size skip_existing))) s0 in
      case (if skip_existing
            then (case get_existing_documents c ds s1 of
                    (found, s) \<Rightarrow>
                      (found,
                       if found \<noteq> []
                       then emit (Log INFO (OfUpload (ExistingFound (length found)))) s
                       else s))
            else ([], s1)) of
        (existing_docs, s2) \<Rightarrow>
      case filter_files skip_existing existing_docs file_paths ([], []) s2 of
        ((to_upload, skipped), s3) \<Rightarrow>
      let s4 = (if skipped \<noteq> []
                then emit (Log INFO (OfUpload (SkipCount (length skipped) (length to_upload)))) s3
                else s3);
          st = \<lparr>total_files = length file_paths, skipped_files = skipped,
                files_to_upload = to_upload, successful_uploads = 0, failed_uploads = []\<rparr>
      in if to_upload = [] then (Inr st, emit (Log INFO (OfUpload NothingNew)) s4)
         else (case py_range0 (length to_upload) batch_size of
                 Inl e \<Rightarrow> (Inl e, s4)
               | Inr indices \<Rightarrow>
                   (case upload_batches c ds to_upload (nat batch_size) indices (0, []) s4 of
                      ((successful, failed), s5) \<Rightarrow>
                        (let st' = st\<lparr>successful_uploads := successful,
                                       failed_uploads := failed\<rparr>
                         in (Inr st', emits (summary st') s5)))))"

section \<open>\<open>start_parsing\<close> and \<open>main\<close>\<close>

fun doc_ids :: "document list \<Rightarrow> exn + string list" where
  \<comment> \<open>\<open>[doc.id for doc in documents]\<close>\<close>
  "doc_ids [] = Inr []"
| "doc_ids (doc # docs) =
     (case doc_id doc of
        None \<Rightarrow> Inl AttributeError
      | Some i \<Rightarrow> (case doc_ids docs of Inl e \<Rightarrow> Inl e | Inr ids \<Rightarrow> Inr (i # ids)))"

definition start_parsing :: "'w client \<Rightarrow> dataset \<Rightarrow> 'w state \<Rightarrow> 'w state" where
  "start_parsing c ds s0 =
     (let s1 = emit (Log INFO (OfParse ParseBegin)) s0;
          failed = (\<lambda>e. emits [Log ERROR (OfParse (ParseFailed e)), Print (OfParse (ParseFailed e))])
      in case perform (list_documents c ds) (ListDocuments ds) s1 of
           (Inl e, s2) \<Rightarrow> failed e s2
         | (Inr documents, s2) \<Rightarrow>
             if documents = []
             then emits [Log WARNING (OfParse ParseNothing), Print (OfParse ParseNothing)] s2
             else (case doc_ids documents of
                     Inl e \<Rightarrow> failed e s2
                   | Inr ids \<Rightarrow>
                       (let s3 = emits [Log INFO (OfParse (ParseFound (length ids))),
                                        Log INFO (OfParse (ParseStarting (length ids))),
                                        Print (OfParse (ParseStarting (length ids)))] s2
                        in case perform (async_parse_documents c ds ids)
                                  (AsyncParseDocuments ds ids) s3 of
                             (Inl e, s4) \<Rightarrow> failed e s4
                           | (Inr u, s4) \<Rightarrow>
                               emits [Log SUCCESS (OfParse (ParseStarted (length ids))),
                                      Print (OfParse ParseStartedNote)] s4)))"

record args =
  arg_api_key :: string
  arg_base_url :: string
  arg_dataset_name :: string
  arg_directory :: path     \<comment> \<open>the path that the string \<open>--directory\<close> names\<close>
  arg_batch_size :: int
  arg_no_parse :: bool
  arg_skip_existing :: bool
  arg_log_file :: "string option"

definition masked_key :: "string \<Rightarrow> string" where
  \<comment> \<open>line 508\<close>
  "masked_key k =
     (if length k > 8 then replicate (length k - 8) (CHR ''*'') @ drop (length k - 4) k
      else ''****'')"

definition startup_lines :: "args \<Rightarrow> out_line list" where
  \<comment> \<open>lines 79 and 43 (the constructor of \<open>RAGFlowUploader\<close>), then lines 507-514\<close>
  "startup_lines a =
     [Log INFO (OfMain LogFileSet),
      Log INFO (OfMain (Connected (arg_base_url a))),
      Log INFO (OfMain ParamsHeader),
      Log INFO (OfMain (ParamApiKey (masked_key (arg_api_key a)))),
      Log INFO (OfMain (ParamBaseUrl (arg_base_url a))),
      Log INFO (OfMain (ParamDatasetName (arg_dataset_name a))),
      Log INFO (OfMain (ParamDirectory (arg_directory a))),
      Log INFO (OfMain (ParamBatchSize (arg_batch_size a))),
      Log INFO (OfMain (ParamAutoParse (\<not> arg_no_parse a))),
      Log INFO (OfMain (ParamLogFile (arg_log_file a)))]"

definition main :: "'w client \<Rightarrow> args \<Rightarrow> 'w state \<Rightarrow> nat \<times> 'w state" where
  \<comment> \<open>the result is the exit code of the process\<close>
  "main c a s0 =
     (let failed = (\<lambda>e s. (1, emits [Log ERROR (OfMain (RunError e)), Print (OfMain (RunError e))] s));
          s1 = emits (startup_lines a) s0
      in case get_or_create_dataset c (arg_dataset_name a) s1 of
           (Inl e, s2) \<Rightarrow> failed e s2
         | (Inr dataset, s2) \<Rightarrow>
             (case get_files_from_directory c (arg_directory a) s2 of
                (Inl e, s3) \<Rightarrow> failed e s3
              | (Inr file_paths, s3) \<Rightarrow>
                  if file_paths = []
                  then (0, emits [Log WARNING (OfMain NoFilesFound), Print (OfMain NoFilesFound)] s3)
                  else (case upload_files c dataset file_paths (arg_batch_size a)
                               (arg_skip_existing a) s3 of
                          (Inl e, s4) \<Rightarrow> failed e s4
                        | (Inr st, s4) \<Rightarrow>
                            (let s5 = (if \<not> arg_no_parse a then start_parsing c dataset s4
                                       else emits [Log INFO (OfMain ParseSkipped),
                                                   Print (OfMain ParseSkippedNote)] s4)
                             in (0, emits [Log SUCCESS (OfMain ScriptDone),
                                           Print (OfMain ScriptDone)] s5)))))"

section \<open>Observing a run\<close>

text \<open>
  What a run did is read off the states before and after it: the calls it added to the
  trace and the lines it added to the output. The functions below pick out of a trace the
  reads, the upload calls and the listing calls, with their replies.
\<close>

definition read_event :: "path \<times> (exn + bytes) \<Rightarrow> event" where
  "read_event pr = ReadBytes (fst pr) (snd pr)"

definition read_docs :: "(path \<times> (exn + bytes)) list \<Rightarrow> upload_doc list" where
  "read_docs rs = concat (map (\<lambda>(p, r). case r of
       Inr file_content \<Rightarrow> [\<lparr>display_name = path_name p, blob = file_content\<rparr>] | Inl e \<Rightarrow> []) rs)"

definition read_failures :: "(path \<times> (exn + bytes)) list \<Rightarrow> string list" where
  "read_failures rs = concat (map (\<lambda>(p, r). case r of Inr file_content \<Rightarrow> [] | Inl e \<Rightarrow> [path_str p]) rs)"

definition read_log :: "event list \<Rightarrow> (path \<times> (exn + bytes)) list" where
  "read_log tr = concat (map (\<lambda>ev. case ev of ReadBytes p r \<Rightarrow> [(p, r)] | _ \<Rightarrow> []) tr)"

definition upload_log :: "event list \<Rightarrow> (upload_doc list \<times> (exn + unit)) list" where
  "upload_log tr = concat (map (\<lambda>ev. case ev of UploadDocuments d docs r \<Rightarrow> [(docs, r)] | _ \<Rightarrow> []) tr)"

definition succeeded_count :: "event list \<Rightarrow> nat" where
  "succeeded_count tr =
     sum_list (map (\<lambda>ev. case ev of UploadDocuments d docs (Inr u) \<Rightarrow> length docs | _ \<Rightarrow> 0) tr)"

definition failed_names :: "event list \<Rightarrow> string list" where
  "failed_names tr =
     concat (map (\<lambda>ev. case ev of
                ReadBytes p (Inl e) \<Rightarrow> [path_str p]
              | UploadDocuments d docs (Inl e) \<Rightarrow> map display_name docs
              | _ \<Rightarrow> []) tr)"

definition upload_phase :: "dataset \<Rightarrow> event \<Rightarrow> bool" where
  "upload_phase ds ev = (case ev of ReadBytes p r \<Rightarrow> True | UploadDocuments d docs r \<Rightarrow> d = ds | _ \<Rightarrow> False)"

fun paged_events :: "dataset \<Rightarrow> nat \<Rightarrow> (exn + document list) list \<Rightarrow> event list" where
  "paged_events ds p [] = []"
| "paged_events ds p (reply # replies) = ListDocumentsPaged ds p 50 reply # paged_events ds (Suc p) replies"

definition reply_docs :: "exn + document list \<Rightarrow> document list" where
  "reply_docs reply = (case reply of Inr docs \<Rightarrow> docs | Inl e \<Rightarrow> [])"

definition full_page :: "exn + document list \<Rightarrow> bool" where
  "full_page reply = (case reply of Inr docs \<Rightarrow> 50 \<le> length docs | Inl e \<Rightarrow> False)"

definition fatal_reply :: "exn + document list \<Rightarrow> bool" where
  "fatal_reply reply = (case reply of Inl e \<Rightarrow> e \<noteq> TypeError | Inr docs \<Rightarrow> False)"

definition is_error :: "'e + 'a \<Rightarrow> bool" where
  "is_error r = (case r of Inl e \<Rightarrow> True | Inr x \<Rightarrow> False)"

definition new_events :: "'w state \<Rightarrow> 'w state \<Rightarrow> event list" where
  "new_events s s' = drop (length (trace s)) (trace s')"

definition new_out :: "'w state \<Rightarrow> 'w state \<Rightarrow> out_line list" where
  "new_out s s' = drop (length (out s)) (out s')"

definition is_summary :: "out_line \<Rightarrow> bool" where
  "is_summary x = (case x of Log l (OfSummary m) \<Rightarrow> True | Print (OfSummary m) \<Rightarrow> True | _ \<Rightarrow> False)"

definition listing_call :: "dataset \<Rightarrow> event \<Rightarrow> bool" where
  "listing_call ds ev = (case ev of ListDocumentsPaged d p n r \<Rightarrow> d = ds | ListDocuments d r \<Rightarrow> d = ds | _ \<Rightarrow> False)"

text \<open>
  The reads and the upload calls of a trace in the order they were made, each read with
  its reply and each upload call with its payload; and the steps of one batch whose reads
  were \<open>rs\<close>: the reads, then one upload call for the files that were read, if any.
\<close>

definition upload_steps :: "event list \<Rightarrow> ((path \<times> (exn + bytes)) + upload_doc list) list" where
  "upload_steps tr = concat (map (\<lambda>ev. case ev of
       ReadBytes p r \<Rightarrow> [Inl (p, r)] | UploadDocuments d docs r \<Rightarrow> [Inr docs] | _ \<Rightarrow> []) tr)"

definition batch_steps :: "(path \<times> (exn + bytes)) list \<Rightarrow> ((path \<times> (exn + bytes)) + upload_doc list) list" where
  "batch_steps rs = map Inl rs @ (if read_docs rs = [] then [] else [Inr (read_docs rs)])"

text \<open>
  The paginated listing calls of a trace (page, page size and reply), the replies of its
  unpaginated listing calls, and the exception of a listing call that the fallback of
  line 142 does not catch.
\<close>

definition paged_log :: "event list \<Rightarrow> (nat \<times> nat \<times> (exn + document list)) list" where
  "paged_log tr = concat (map (\<lambda>ev. case ev of
       ListDocumentsPaged d page page_size reply \<Rightarrow> [(page, page_size, reply)] | _ \<Rightarrow> []) tr)"

definition unpaged_log :: "event list \<Rightarrow> (exn + document list) list" where
  "unpaged_log tr = concat (map (\<lambda>ev. case ev of ListDocuments d reply \<Rightarrow> [reply] | _ \<Rightarrow> []) tr)"

definition listing_error :: "event \<Rightarrow> exn option" where
  "listing_error ev =
     (case ev of
        ListDocumentsPaged d page page_size (Inl e) \<Rightarrow> if e = TypeError then None else Some e
      | ListDocuments d (Inl e) \<Rightarrow> Some e
      | _ \<Rightarrow> None)"

section \<open>Concrete worlds\<close>

text \<open>
  A world that answers from fixed tables; its state counts the upload calls made so far,
  so that the reply to an upload can depend on which call it is.
\<close>

definition scripted :: 
  "(exn + dataset list) \<Rightarrow> (exn + dataset) \<Rightarrow> (nat \<Rightarrow> exn + document list) \<Rightarrow> (exn + document list)
     \<Rightarrow> (path \<Rightarrow> exn + bytes) \<Rightarrow> (nat \<Rightarrow> exn + unit) \<Rightarrow> bool \<Rightarrow> nat client" where
  "scripted found created pages listing files uploads dir_there =
     \<lparr>list_datasets = (\<lambda>name w. (found, w)),
      create_dataset = (\<lambda>name description chunk_method permission w. (created, w)),
      list_documents_paged = (\<lambda>ds page page_size w. (pages page, w)),
      list_documents = (\<lambda>ds w. (listing, w)),
      upload_documents = (\<lambda>ds docs w. (uploads w, Suc w)),
      async_parse_documents = (\<lambda>ds ids w. (Inr (), w)),
      path_exists = (\<lambda>p w. (dir_there, w)),
      path_is_dir = (\<lambda>p w. (dir_there, w)),
      rglob = (\<lambda>p w. ([], w)),
      read_bytes = (\<lambda>p w. (files p, w))\<rparr>"

definition kb :: dataset where "kb = \<lparr>ds_id = Some ''ds1'', ds_name = ''kb''\<rparr>"

definition remote_doc :: "string \<Rightarrow> document" where
  "remote_doc n = \<lparr>doc_id = Some (''id_'' @ n), doc_name = Some n, doc_display_name = None\<rparr>"

definition start :: "nat state" where "start = \<lparr>world = 0, trace = [], out = []\<rparr>"

definition plain_client :: "nat client" where
  "plain_client = scripted (Inr [kb]) (Inr kb) (\<lambda>page. Inr (if page = 1 then [remote_doc ''a.md''] else []))
      (Inr []) (\<lambda>p. if path_name p = ''bad.txt'' then Inl (OtherError ''denied'') else Inr ''x'')
      (\<lambda>n. if n = 1 then Inl (OtherError ''timeout'') else Inr ()) True"

definition three_files :: "path list" where
  "three_files = [[''docs'', ''a.md''], [''docs'', ''bad.txt''], [''docs'', ''b.md'']]"

definition steady_client :: "nat client" where
  "steady_client = scripted (Inr [kb]) (Inr kb)
      (\<lambda>page. Inr (if page = 1 then [remote_doc ''a.md''] else []))
      (Inr []) (\<lambda>p. Inr ''x'') (\<lambda>n. Inr ()) True"

definition seven_files :: "path list" where
  "seven_files = [[''docs'', ''f1.md''], [''docs'', ''f2.md''], [''docs'', ''f3.md''],
                  [''docs'', ''f4.md''], [''docs'', ''f5.md''], [''docs'', ''f6.md''],
                  [''docs'', ''f7.md'']]"

definition no_dir_client :: "nat client" where
  "no_dir_client = scripted (Inr []) (Inr kb) (\<lambda>page. Inr []) (Inr [])
      (\<lambda>p. Inr ''x'') (\<lambda>n. Inr ()) False"

definition lookup_down_client :: "nat client" where
  "lookup_down_client = scripted (Inl (OtherError ''down'')) (Inr kb) (\<lambda>page. Inr []) (Inr [])
      (\<lambda>p. Inr ''x'') (\<lambda>n. Inr ()) False"

definition demo_args :: args where
  "demo_args = \<lparr>arg_api_key = ''ragflow-0123456789'', arg_base_url = ''http://localhost:9380'',
                 arg_dataset_name = ''kb'', arg_directory = [''missing''], arg_batch_size = 5,
                 arg_no_parse = False, arg_skip_existing = False, arg_log_file = None\<rparr>"

definition create_down_client :: "nat client" where
  "create_down_client = scripted (Inl (OtherError ''down'')) (Inl (OtherError ''refused''))
      (\<lambda>page. Inr []) (Inr []) (\<lambda>p. Inr ''x'') (\<lambda>n. Inr ()) True"

definition unreadable_client :: "nat client" where
  "unreadable_client = scripted (Inr [kb]) (Inr kb) (\<lambda>page. Inr []) (Inr [])
      (\<lambda>p. if path_name p = ''bad.txt'' then Inl (OtherError ''denied'') else Inr ''x'')
      (\<lambda>n. Inr ()) True"

definition listing_down_client :: "nat client" where
  "listing_down_client = scripted (Inr [kb]) (Inr kb) (\<lambda>page. Inl (OtherError ''503''))
      (Inr []) (\<lambda>p. Inr ''x'') (\<lambda>n. Inr ()) True"

definition fifty :: "document list" where
  "fifty = replicate 50 (remote_doc ''a.md'')"

definition fallback_client :: "nat client" where
  "fallback_client = scripted (Inr [kb]) (Inr kb)
      (\<lambda>page. if page = 1 then Inr fifty else Inl TypeError)
      (Inr [remote_doc ''b.md'']) (\<lambda>p. Inr ''x'') (\<lambda>n. Inr ()) True"

definition endless_client :: "nat client" where
  "endless_client = scripted (Inr [kb]) (Inr kb) (\<lambda>page. Inr fifty)
      (Inr []) (\<lambda>p. Inr ''x'') (\<lambda>n. Inr ()) True"

section \<open>Auxiliary lemmas\<close>

lemma trace_emit [simp]: "trace (emit x s) = trace s" and world_emit [simp]: "world (emit x s) = world s"
  and out_emit [simp]: "out (emit x s) = out s @ [x]"
  by (simp_all add: emit_def)

lemma trace_emits [simp]: "trace (emits xs s) = trace s" and world_emits [simp]: "world (emits xs s) = world s"
  and out_emits [simp]: "out (emits xs s) = out s @ xs"
  by (simp_all add: emits_def)

lemma read_docs_append [simp]: "read_docs (xs @ ys) = read_docs xs @ read_docs ys"
  by (simp add: read_docs_def)

lemma read_failures_append [simp]: "read_failures (xs @ ys) = read_failures xs @ read_failures ys"
  by (simp add: read_failures_def)

lemma read_docs_simps [simp]: "read_docs [] = []"
  "read_docs ((p, Inr x) # rs) = \<lparr>display_name = path_name p, blob = x\<rparr> # read_docs rs"
  "read_docs ((p, Inl e) # rs) = read_docs rs"
  by (simp_all add: read_docs_def)

lemma read_failures_simps [simp]: "read_failures [] = []"
  "read_failures ((p, Inr x) # rs) = read_failures rs"
  "read_failures ((p, Inl e) # rs) = path_str p # read_failures rs"
  by (simp_all add: read_failures_def)

lemma prepare_batch_run:
  "prepare_batch c files docs failed s = ((docs', failed'), s') \<Longrightarrow>
     \<exists>rs. map fst rs = files \<and> trace s' = trace s @ map read_event rs
        \<and> docs' = docs @ read_docs rs \<and> failed' = failed @ read_failures rs"
proof (induction files arbitrary: docs failed s)
  case Nil
  then show ?case by simp
next
  case (Cons p files)
  obtain r w' where f: "read_bytes c p (world s) = (r, w')" by (cases "read_bytes c p (world s)")
  show ?case
  proof (cases r)
    case (Inl e)
    with Cons.prems f obtain rs where "map fst rs = files"
       "trace s' = (trace s @ [ReadBytes p r]) @ map read_event rs"
       "docs' = docs @ read_docs rs" "failed' = (failed @ [path_str p]) @ read_failures rs"
      using Cons.IH[of docs "failed @ [path_str p]"] 
      by (fastforce simp: perform_def)
    then show ?thesis using Inl
      by (intro exI[of _ "(p, r) # rs"]) (simp add: read_event_def)
  next
    case (Inr x)
    with Cons.prems f obtain rs where "map fst rs = files"
       "trace s' = (trace s @ [ReadBytes p r]) @ map read_event rs"
       "docs' = (docs @ [\<lparr>display_name = path_name p, blob = x\<rparr>]) @ read_docs rs" "failed' = failed @ read_failures rs"
      using Cons.IH[of "docs @ [\<lparr>display_name = path_name p, blob = x\<rparr>]" failed] 
      by (fastforce simp: perform_def)
    then show ?thesis using Inr
      by (intro exI[of _ "(p, r) # rs"]) (simp add: read_event_def)
  qed
qed

lemma upload_batch_run:
  assumes "upload_batch c ds files b i (successful, failed) s = ((successful', failed'), s')"
  shows "\<exists>rs. map fst rs = take b (drop i files) \<and>
     ((read_docs rs = [] \<and> trace s' = trace s @ map read_event rs \<and> successful' = successful
             \<and> failed' = failed @ read_failures rs)
      \<or> (read_docs rs \<noteq> []
           \<and> trace s' = trace s @ map read_event rs @ [UploadDocuments ds (read_docs rs) (Inr ())]
           \<and> successful' = successful + length (read_docs rs)
           \<and> failed' = failed @ read_failures rs)
      \<or> (read_docs rs \<noteq> []
           \<and> (\<exists>e. trace s' = trace s @ map read_event rs @ [UploadDocuments ds (read_docs rs) (Inl e)])
           \<and> successful' = successful
           \<and> failed' = failed @ read_failures rs @ map display_name (read_docs rs)))"
proof -
  let ?s1 = "emit (Log INFO (OfUpload (BatchBegin (i div b + 1) (length (take b (drop i files)))))) s"
  obtain docs failed1 s2 where p: "prepare_batch c (take b (drop i files)) [] failed ?s1 = ((docs, failed1), s2)"
    by (metis surj_pair)
  from prepare_batch_run[OF p] obtain rs where rs: "map fst rs = take b (drop i files)"
     "trace s2 = trace s @ map read_event rs" "docs = read_docs rs" "failed1 = failed @ read_failures rs"
    by auto
  show ?thesis
  proof (cases "docs = []")
    case True
    with assms p rs show ?thesis
      by (intro exI[of _ rs]) (simp add: upload_batch_def Let_def)
  next
    case False
    with assms p rs show ?thesis
      apply (intro exI[of _ rs])
      apply (simp add: upload_batch_def Let_def perform_def split: prod.splits sum.splits)
      apply auto
      done
  qed
qed

lemma read_log_append [simp]: "read_log (xs @ ys) = read_log xs @ read_log ys"
  by (simp add: read_log_def)

lemma upload_log_append [simp]: "upload_log (xs @ ys) = upload_log xs @ upload_log ys"
  by (simp add: upload_log_def)

lemma succeeded_count_append [simp]: "succeeded_count (xs @ ys) = succeeded_count xs + succeeded_count ys"
  by (simp add: succeeded_count_def)

lemma failed_names_append [simp]: "failed_names (xs @ ys) = failed_names xs @ failed_names ys"
  by (simp add: failed_names_def)

lemma proj_nil [simp]: "read_log [] = []" "upload_log [] = []" "succeeded_count [] = 0" "failed_names [] = []"
  by (simp_all add: read_log_def upload_log_def succeeded_count_def failed_names_def)

lemma proj_reads [simp]:
  "read_log (map read_event rs) = rs"
  "upload_log (map read_event rs) = []"
  "succeeded_count (map read_event rs) = 0"
  "failed_names (map read_event rs) = read_failures rs"
  "ev \<in> set (map read_event rs) \<Longrightarrow> upload_phase ds ev"
proof -
  show "read_log (map read_event rs) = rs"
    by (induction rs) (simp_all add: read_log_def read_event_def)
  show "upload_log (map read_event rs) = []"
    by (induction rs) (simp_all add: upload_log_def read_event_def)
  show "succeeded_count (map read_event rs) = 0"
    by (induction rs) (simp_all add: succeeded_count_def read_event_def)
  show "failed_names (map read_event rs) = read_failures rs"
  proof (induction rs)
    case (Cons a rs)
    then show ?case by (cases a; cases "snd a") (simp_all add: failed_names_def read_event_def)
  qed simp
  show "ev \<in> set (map read_event rs) \<Longrightarrow> upload_phase ds ev"
    by (auto simp: upload_phase_def read_event_def)
qed

lemma proj_upload [simp]:
  "read_log [UploadDocuments ds docs r] = []"
  "upload_log [UploadDocuments ds docs r] = [(docs, r)]"
  "succeeded_count [UploadDocuments ds docs (Inr u)] = length docs"
  "succeeded_count [UploadDocuments ds docs (Inl e)] = 0"
  "failed_names [UploadDocuments ds docs (Inr u)] = []"
  "failed_names [UploadDocuments ds docs (Inl e)] = map display_name docs"
  "upload_phase ds (UploadDocuments ds docs r)"
  by (simp_all add: read_log_def upload_log_def succeeded_count_def failed_names_def upload_phase_def)

lemma read_docs_failures_length: "length (read_docs rs) + length (read_failures rs) = length rs"
proof (induction rs)
  case (Cons a rs)
  then show ?case by (cases a; cases "snd a") simp_all
qed simp

lemma read_docs_all_ok:
  "read_failures rs = [] \<Longrightarrow> map display_name (read_docs rs) = map path_name (map fst rs)"
proof (induction rs)
  case (Cons a rs)
  then show ?case by (cases a; cases "snd a") simp_all
qed simp

lemma upload_batch_seg:
  assumes "upload_batch c ds files b i (successful, failed) s = ((successful', failed'), s')"
  shows "\<exists>seg. trace s' = trace s @ seg
     \<and> map fst (read_log seg) = take b (drop i files)
     \<and> seg = map read_event (read_log seg) @ map (\<lambda>(docs, r). UploadDocuments ds docs r) (upload_log seg)
     \<and> map fst (upload_log seg) = (if read_docs (read_log seg) = [] then [] else [read_docs (read_log seg)])
     \<and> successful' = successful + succeeded_count seg
     \<and> failed' = failed @ failed_names seg
     \<and> succeeded_count seg + length (failed_names seg) = length (read_log seg)"
proof -
  from upload_batch_run[OF assms] obtain rs where rs: "map fst rs = take b (drop i files)"
    and c: "(read_docs rs = [] \<and> trace s' = trace s @ map read_event rs \<and> successful' = successful
             \<and> failed' = failed @ read_failures rs)
      \<or> (read_docs rs \<noteq> []
           \<and> trace s' = trace s @ map read_event rs @ [UploadDocuments ds (read_docs rs) (Inr ())]
           \<and> successful' = successful + length (read_docs rs)
           \<and> failed' = failed @ read_failures rs)
      \<or> (read_docs rs \<noteq> []
           \<and> (\<exists>e. trace s' = trace s @ map read_event rs @ [UploadDocuments ds (read_docs rs) (Inl e)])
           \<and> successful' = successful
           \<and> failed' = failed @ read_failures rs @ map display_name (read_docs rs))"
    by blast
  note len = read_docs_failures_length[of rs]
  from c show ?thesis
  proof (elim disjE conjE exE)
    assume "read_docs rs = []" "trace s' = trace s @ map read_event rs" "successful' = successful"
      "failed' = failed @ read_failures rs"
    then show ?thesis using rs len by (intro exI[of _ "map read_event rs"]) simp
  next
    assume "read_docs rs \<noteq> []"
      "trace s' = trace s @ map read_event rs @ [UploadDocuments ds (read_docs rs) (Inr ())]"
      "successful' = successful + length (read_docs rs)" "failed' = failed @ read_failures rs"
    then show ?thesis using rs len
      by (intro exI[of _ "map read_event rs @ [UploadDocuments ds (read_docs rs) (Inr ())]"]) simp
  next
    fix e assume "read_docs rs \<noteq> []"
      "trace s' = trace s @ map read_event rs @ [UploadDocuments ds (read_docs rs) (Inl e)]"
      "successful' = successful" "failed' = failed @ read_failures rs @ map display_name (read_docs rs)"
    then show ?thesis using rs len
      by (intro exI[of _ "map read_event rs @ [UploadDocuments ds (read_docs rs) (Inl e)]"]) simp
  qed
qed

lemma upload_batches_run:
  "upload_batches c ds files b idxs (successful, failed) s = ((successful', failed'), s') \<Longrightarrow>
   \<exists>new. trace s' = trace s @ new
     \<and> map fst (read_log new) = concat (map (\<lambda>i. take b (drop i files)) idxs)
     \<and> concat (map fst (upload_log new)) = read_docs (read_log new)
     \<and> successful' = successful + succeeded_count new
     \<and> failed' = failed @ failed_names new
     \<and> succeeded_count new + length (failed_names new) = length (read_log new)
     \<and> (\<forall>ev \<in> set new. upload_phase ds ev)
     \<and> (read_failures (read_log new) = [] \<longrightarrow>
          map (map display_name \<circ> fst) (upload_log new)
            = filter (\<lambda>names. names \<noteq> []) (map (\<lambda>i. map path_name (take b (drop i files))) idxs))"
proof (induction idxs arbitrary: successful failed s)
  case Nil
  then show ?case by simp
next
  case (Cons i idxs)
  obtain succ1 failed1 s1 where b1: "upload_batch c ds files b i (successful, failed) s = ((succ1, failed1), s1)"
    by (metis surj_pair)
  with Cons.prems have rest: "upload_batches c ds files b idxs (succ1, failed1) s1 = ((successful', failed'), s')"
    by simp
  from upload_batch_seg[OF b1] obtain seg where seg:
    "trace s1 = trace s @ seg"
    "map fst (read_log seg) = take b (drop i files)"
    "seg = map read_event (read_log seg) @ map (\<lambda>(docs, r). UploadDocuments ds docs r) (upload_log seg)"
    "map fst (upload_log seg) = (if read_docs (read_log seg) = [] then [] else [read_docs (read_log seg)])"
    "succ1 = successful + succeeded_count seg"
    "failed1 = failed @ failed_names seg"
    "succeeded_count seg + length (failed_names seg) = length (read_log seg)"
    by blast
  from Cons.IH[OF rest] obtain new where new:
    "trace s' = trace s1 @ new"
    "map fst (read_log new) = concat (map (\<lambda>i. take b (drop i files)) idxs)"
    "concat (map fst (upload_log new)) = read_docs (read_log new)"
    "successful' = succ1 + succeeded_count new"
    "failed' = failed1 @ failed_names new"
    "succeeded_count new + length (failed_names new) = length (read_log new)"
    "\<forall>ev \<in> set new. upload_phase ds ev"
    "read_failures (read_log new) = [] \<longrightarrow>
          map (map display_name \<circ> fst) (upload_log new)
            = filter (\<lambda>names. names \<noteq> []) (map (\<lambda>i. map path_name (take b (drop i files))) idxs)"
    by blast
  have ph: "\<forall>ev \<in> set seg. upload_phase ds ev"
  proof
    fix ev assume "ev \<in> set seg"
    then have "ev \<in> set (map read_event (read_log seg)) \<or> ev \<in> set (map (\<lambda>(docs, r). UploadDocuments ds docs r) (upload_log seg))"
      using seg(3) by (metis Un_iff set_append)
    then show "upload_phase ds ev" by (auto simp: upload_phase_def read_event_def)
  qed
  have pay: "read_failures (read_log seg) = [] \<Longrightarrow>
      map (map display_name \<circ> fst) (upload_log seg)
        = filter (\<lambda>names. names \<noteq> []) [map path_name (take b (drop i files))]"
  proof -
    assume ok: "read_failures (read_log seg) = []"
    have n: "map display_name (read_docs (read_log seg)) = map path_name (take b (drop i files))"
      using read_docs_all_ok[OF ok] seg(2) by simp
    have m: "map (map display_name \<circ> fst) (upload_log seg) = map (map display_name) (map fst (upload_log seg))"
      by simp
    show ?thesis
    proof (cases "read_docs (read_log seg) = []")
      case True
      then have "map path_name (take b (drop i files)) = []" using n by simp
      then show ?thesis unfolding m seg(4) using True by simp
    next
      case False
      then have "map path_name (take b (drop i files)) \<noteq> []" using n by (metis map_is_Nil_conv)
      then show ?thesis unfolding m seg(4) using False n by simp
    qed
  qed
  show ?case
  proof (intro exI[of _ "seg @ new"] conjI)
    show "trace s' = trace s @ seg @ new" using seg(1) new(1) by simp
    show "map fst (read_log (seg @ new)) = concat (map (\<lambda>i. take b (drop i files)) (i # idxs))"
      using seg(2) new(2) by simp
    show "concat (map fst (upload_log (seg @ new))) = read_docs (read_log (seg @ new))"
      using seg(4) new(3) by simp
    show "successful' = successful + succeeded_count (seg @ new)" using seg(5) new(4) by simp
    show "failed' = failed @ failed_names (seg @ new)" using seg(6) new(5) by simp
    show "succeeded_count (seg @ new) + length (failed_names (seg @ new)) = length (read_log (seg @ new))"
      using seg(7) new(6) by simp
    show "\<forall>ev \<in> set (seg @ new). upload_phase ds ev" using ph new(7) by auto
    show "read_failures (read_log (seg @ new)) = [] \<longrightarrow>
          map (map display_name \<circ> fst) (upload_log (seg @ new))
            = filter (\<lambda>names. names \<noteq> []) (map (\<lambda>i. map path_name (take b (drop i files))) (i # idxs))"
    proof
      assume "read_failures (read_log (seg @ new)) = []"
      then have a: "read_failures (read_log seg) = []" and b: "read_failures (read_log new) = []"
        by simp_all
      from pay[OF a] new(8) b show "map (map display_name \<circ> fst) (upload_log (seg @ new))
            = filter (\<lambda>names. names \<noteq> []) (map (\<lambda>i. map path_name (take b (drop i files))) (i # idxs))"
        by simp
    qed
  qed
qed

lemma range_from_concat:
  "0 < b \<Longrightarrow> concat (map (\<lambda>i. take b (drop i files)) (range_from i (length files) b)) = drop i files"
proof (induction i "length files" b rule: range_from.induct)
  case (1 i b)
  show ?case
  proof (cases "i < length files")
    case True
    have "concat (map (\<lambda>i. take b (drop i files)) (range_from i (length files) b))
        = take b (drop i files) @ concat (map (\<lambda>i. take b (drop i files)) (range_from (i + b) (length files) b))"
      using True 1(2) by (subst range_from.simps) simp
    also have "\<dots> = take b (drop i files) @ drop (i + b) files"
      using 1(1) True 1(2) by simp
    also have "\<dots> = take b (drop i files) @ drop b (drop i files)"
      by (simp add: add.commute)
    also have "\<dots> = drop i files" by (rule append_take_drop_id)
    finally show ?thesis .
  next
    case False
    then show ?thesis by (subst range_from.simps) simp
  qed
qed

lemma range_from_lt: "j \<in> set (range_from i n b) \<Longrightarrow> j < n"
proof (induction i n b rule: range_from.induct)
  case (1 i n b)
  from 1(2) have "j \<in> set (if 0 < b \<and> i < n then i # range_from (i + b) n b else [])"
    by (subst (asm) range_from.simps)
  then show ?case using 1(1) by (auto split: if_splits)
qed

lemma ceil_div_less: "0 < b \<Longrightarrow> (j * b < n) = (j < (n + b - 1) div b)" for b :: nat
proof -
  assume b: "0 < b"
  have "(j < (n + b - 1) div b) = (Suc j \<le> (n + b - 1) div b)" by auto
  also have "\<dots> = (Suc j * b \<le> n + b - 1)" using b by (simp add: less_eq_div_iff_mult_less_eq)
  also have "\<dots> = (j * b < n)" using b by auto
  finally show ?thesis by simp
qed

lemma range_from_mult:
  "0 < b \<Longrightarrow> range_from (j * b) n b = map (\<lambda>k. k * b) [j..<(n + b - 1) div b]"
proof (induction "j * b" n b arbitrary: j rule: range_from.induct)
  case (1 n b)
  show ?case
  proof (cases "j * b < n")
    case True
    then have "j < (n + b - 1) div b" using 1(2) ceil_div_less by blast
    moreover have "range_from (Suc j * b) n b = map (\<lambda>k. k * b) [Suc j..<(n + b - 1) div b]"
      using 1(1)[of "Suc j"] True 1(2) by (simp add: add.commute)
    ultimately show ?thesis using True 1(2)
      by (subst range_from.simps) (simp add: upt_conv_Cons add.commute)
  next
    case False
    then have "(n + b - 1) div b \<le> j" using 1(2) ceil_div_less by (metis not_less)
    then show ?thesis using False by (subst range_from.simps) simp
  qed
qed

lemma add_documents_append:
  "add_documents (xs @ ys) m = (case add_documents xs m of Inl e \<Rightarrow> Inl e | Inr m' \<Rightarrow> add_documents ys m')"
  by (induction xs arbitrary: m) (auto split: sum.splits)

lemma fetch_pages_run:
  "fetch_pages c ds p m s = (r, s') \<Longrightarrow> p \<le> 1000 \<Longrightarrow>
   \<exists>rs fb. trace s' = trace s @ paged_events ds p rs @ map (ListDocuments ds) fb
     \<and> rs \<noteq> [] \<and> p + length rs \<le> 1001
     \<and> (\<forall>reply \<in> set (butlast rs). full_page reply)
     \<and> (if last rs = Inl TypeError then length fb = 1 else fb = [])
     \<and> (if (\<exists>reply \<in> set rs. fatal_reply reply) \<or> (\<exists>reply \<in> set fb. is_error reply)
         then (\<exists>e. r = Inl e \<and> last (rs @ fb) = Inl e)
         else r = add_documents (concat (map reply_docs (rs @ fb))) m)
     \<and> out s' = out s @
          (if p + length rs = 1001 \<and> full_page (last rs) \<and> \<not> is_error r
           then [Log WARNING (OfExisting PageLimitReached)] else [])
     \<and> (full_page (last rs) \<and> \<not> is_error r \<longrightarrow> p + length rs = 1001)"
proof (induction c ds p m s arbitrary: r s' rule: fetch_pages.induct)
  case (1 c ds page m s)
  obtain reply w1 where call: "list_documents_paged c ds page 50 (world s) = (reply, w1)"
    by (metis surj_pair)
  define s1 where "s1 = s\<lparr>world := w1, trace := trace s @ [ListDocumentsPaged ds page 50 reply]\<rparr>"
  have perf: "perform (list_documents_paged c ds page 50) (ListDocumentsPaged ds page 50) s = (reply, s1)"
    by (simp add: perform_def call s1_def)
  have tr1: "trace s1 = trace s @ [ListDocumentsPaged ds page 50 reply]" and o1: "out s1 = out s"
    by (simp_all add: s1_def)
  note run = "1.prems"(1)[unfolded fetch_pages.simps[of c ds page m s] Let_def perf, simplified]
  show ?case
  proof (cases reply)
    case (Inl e)
    show ?thesis
    proof (cases "e = TypeError")
      case True
      obtain reply2 w2 where call2: "list_documents c ds (world s1) = (reply2, w2)"
        by (metis surj_pair)
      from run Inl True call2 have
        "trace s' = trace s1 @ [ListDocuments ds reply2]" "out s' = out s1"
        "r = (case reply2 of Inl e \<Rightarrow> Inl e | Inr docs \<Rightarrow> add_documents docs m)"
        by (auto simp: perform_def split: sum.splits)
      then show ?thesis using Inl True tr1 o1 "1.prems"(2)
        by - (rule exI[of _ "[reply]"], rule exI[of _ "[reply2]"],
           auto simp: full_page_def fatal_reply_def is_error_def reply_docs_def split: sum.splits)
    next
      case False
      from run Inl False have "s' = s1" "r = Inl e"
        by (cases e; simp)+
      then show ?thesis using Inl False tr1 o1 "1.prems"(2)
        by - (rule exI[of _ "[reply]"], rule exI[of _ "[]"],
           auto simp: full_page_def fatal_reply_def is_error_def)
    qed
  next
    case (Inr docs)
    show ?thesis
    proof (cases "docs = [] \<or> is_error (add_documents docs m) \<or> length docs < 50 \<or> page = 1000")
      case True
      then have "s' = (if docs \<noteq> [] \<and> \<not> is_error (add_documents docs m) \<and> \<not> length docs < 50 then emit (Log WARNING (OfExisting PageLimitReached)) s1 else s1)
           \<and> r = add_documents docs m"
        using run Inr "1.prems"(2) by (auto simp: is_error_def split: sum.splits if_splits)
      then show ?thesis using Inr True tr1 o1 "1.prems"(2)
        by - (rule exI[of _ "[reply]"], rule exI[of _ "[]"],
           auto simp: full_page_def fatal_reply_def is_error_def reply_docs_def)
    next
      case False
      then obtain m' where m': "add_documents docs m = Inr m'" and ne: "docs \<noteq> []"
        and len: "\<not> length docs < 50" and pg: "page < 1000"
        using "1.prems"(2) by (cases "add_documents docs m") (auto simp: is_error_def)
      from run Inr m' ne len pg have rec: "fetch_pages c ds (page + 1) m' s1 = (r, s')"
        by simp
      have "\<exists>rs fb. trace s' = trace s1 @ paged_events ds (page + 1) rs @ map (ListDocuments ds) fb
         \<and> rs \<noteq> [] \<and> (page + 1) + length rs \<le> 1001
         \<and> (\<forall>reply \<in> set (butlast rs). full_page reply)
         \<and> (if last rs = Inl TypeError then length fb = 1 else fb = [])
         \<and> (if (\<exists>reply \<in> set rs. fatal_reply reply) \<or> (\<exists>reply \<in> set fb. is_error reply)
             then (\<exists>e. r = Inl e \<and> last (rs @ fb) = Inl e)
             else r = add_documents (concat (map reply_docs (rs @ fb))) m')
         \<and> out s' = out s1 @
              (if (page + 1) + length rs = 1001 \<and> full_page (last rs) \<and> \<not> is_error r
               then [Log WARNING (OfExisting PageLimitReached)] else [])
         \<and> (full_page (last rs) \<and> \<not> is_error r \<longrightarrow> (page + 1) + length rs = 1001)"
        using "1.IH"[of 50 reply s1 docs m' r s'] perf Inr ne m' len pg rec by simp
      then obtain rs fb where ih:
        "trace s' = trace s1 @ paged_events ds (page + 1) rs @ map (ListDocuments ds) fb"
        "rs \<noteq> []" "(page + 1) + length rs \<le> 1001"
        "\<forall>reply \<in> set (butlast rs). full_page reply"
        "if last rs = Inl TypeError then length fb = 1 else fb = []"
        "if (\<exists>reply \<in> set rs. fatal_reply reply) \<or> (\<exists>reply \<in> set fb. is_error reply)
             then (\<exists>e. r = Inl e \<and> last (rs @ fb) = Inl e)
             else r = add_documents (concat (map reply_docs (rs @ fb))) m'"
        "out s' = out s1 @
              (if (page + 1) + length rs = 1001 \<and> full_page (last rs) \<and> \<not> is_error r
               then [Log WARNING (OfExisting PageLimitReached)] else [])"
        "full_page (last rs) \<and> \<not> is_error r \<longrightarrow> (page + 1) + length rs = 1001"
        by blast
      have fp: "full_page reply" "\<not> fatal_reply reply" "reply_docs reply = docs"
        using Inr len by (simp_all add: full_page_def fatal_reply_def reply_docs_def)
      show ?thesis
      proof (rule exI[of _ "reply # rs"], rule exI[of _ fb], intro conjI)
        show "trace s' = trace s @ paged_events ds page (reply # rs) @ map (ListDocuments ds) fb"
          using ih(1) tr1 by simp
        show "reply # rs \<noteq> []" by simp
        show "page + length (reply # rs) \<le> 1001" using ih(3) by simp
        show "\<forall>reply \<in> set (butlast (reply # rs)). full_page reply" using ih(2,4) fp by simp
        show "if last (reply # rs) = Inl TypeError then length fb = 1 else fb = []"
          using ih(2,5) by simp
        show "if (\<exists>reply \<in> set (reply # rs). fatal_reply reply) \<or> (\<exists>reply \<in> set fb. is_error reply)
             then (\<exists>e. r = Inl e \<and> last ((reply # rs) @ fb) = Inl e)
             else r = add_documents (concat (map reply_docs ((reply # rs) @ fb))) m"
          using ih(6) fp m' by (simp add: add_documents_append)
        show "out s' = out s @
              (if page + length (reply # rs) = 1001 \<and> full_page (last (reply # rs)) \<and> \<not> is_error r
               then [Log WARNING (OfExisting PageLimitReached)] else [])"
          using ih(2,7) o1 by simp
        show "full_page (last (reply # rs)) \<and> \<not> is_error r \<longrightarrow> page + length (reply # rs) = 1001"
          using ih(2,8) by simp
      qed
    qed
  qed
qed

lemma new_eventsI: "trace s' = trace s @ xs \<Longrightarrow> new_events s s' = xs"
  by (simp add: new_events_def)

lemma new_outI: "out s' = out s @ xs \<Longrightarrow> new_out s s' = xs"
  by (simp add: new_out_def)

lemma filter_files_run:
  "filter_files skip ex files (up, sk) s = ((up', sk'), s') \<Longrightarrow>
     up' = up @ filter (\<lambda>p. \<not> (skip \<and> path_name p \<in> fst ` set ex)) files
   \<and> sk' = sk @ map path_str (filter (\<lambda>p. skip \<and> path_name p \<in> fst ` set ex) files)
   \<and> trace s' = trace s \<and> world s' = world s
   \<and> out s' = out s @ map (\<lambda>p. Log INFO (OfUpload (SkipFile (path_name p))))
                        (filter (\<lambda>p. skip \<and> path_name p \<in> fst ` set ex) files)"
proof (induction files arbitrary: up sk s)
  case Nil
  then show ?case by simp
next
  case (Cons p files)
  show ?case
  proof (cases "skip \<and> path_name p \<in> fst ` set ex")
    case True
    with Cons.prems have "filter_files skip ex files (up, sk @ [path_str p])
             (emit (Log INFO (OfUpload (SkipFile (path_name p)))) s) = ((up', sk'), s')"
      by (simp add: Let_def)
    from Cons.IH[OF this] True show ?thesis by simp
  next
    case False
    with Cons.prems have "filter_files skip ex files (up @ [p], sk) s = ((up', sk'), s')"
      by (auto simp add: Let_def)
    from Cons.IH[OF this] False show ?thesis by auto
  qed
qed

lemma get_existing_documents_run:
  assumes "get_existing_documents c ds s = (m, s')"
  shows "\<exists>rs fb xs. trace s' = trace s @ paged_events ds 1 rs @ map (ListDocuments ds) fb
     \<and> rs \<noteq> [] \<and> length rs \<le> 1000
     \<and> (\<forall>reply \<in> set (butlast rs). full_page reply)
     \<and> (if last rs = Inl TypeError then length fb = 1 else fb = [])
     \<and> (if (\<exists>reply \<in> set rs. fatal_reply reply) \<or> (\<exists>reply \<in> set fb. is_error reply)
         then m = [] \<and> (\<exists>e. last (rs @ fb) = Inl e \<and> last (out s') = Log ERROR (OfExisting (ExistingFailed e)))
         else m = (case add_documents (concat (map reply_docs (rs @ fb))) [] of
                     Inr found \<Rightarrow> found | Inl e \<Rightarrow> []))
     \<and> out s' = out s @ xs \<and> (\<forall>x \<in> set xs. \<exists>l x'. x = Log l (OfExisting x'))
     \<and> (length rs = 1000 \<and> full_page (last rs)
          \<and> \<not> is_error (add_documents (concat (map reply_docs (rs @ fb))) [])
         \<longrightarrow> Log WARNING (OfExisting PageLimitReached) \<in> set xs)
     \<and> (full_page (last rs)
          \<and> \<not> is_error (add_documents (concat (map reply_docs (rs @ fb))) [])
         \<longrightarrow> length rs = 1000)"
proof -
  let ?s1 = "emit (Log INFO (OfExisting ExistingBegin)) s"
  obtain r s2 where f: "fetch_pages c ds 1 [] ?s1 = (r, s2)" by (metis surj_pair)
  from fetch_pages_run[OF f] obtain rs fb where run:
    "trace s2 = trace ?s1 @ paged_events ds 1 rs @ map (ListDocuments ds) fb"
    "rs \<noteq> []" "1 + length rs \<le> 1001"
    "\<forall>reply \<in> set (butlast rs). full_page reply"
    "if last rs = Inl TypeError then length fb = 1 else fb = []"
    "if (\<exists>reply \<in> set rs. fatal_reply reply) \<or> (\<exists>reply \<in> set fb. is_error reply)
         then (\<exists>e. r = Inl e \<and> last (rs @ fb) = Inl e)
         else r = add_documents (concat (map reply_docs (rs @ fb))) []"
    "out s2 = out ?s1 @
          (if 1 + length rs = 1001 \<and> full_page (last rs) \<and> \<not> is_error r
           then [Log WARNING (OfExisting PageLimitReached)] else [])"
    "full_page (last rs) \<and> \<not> is_error r \<longrightarrow> 1 + length rs = 1001"
    by auto
  define tail where "tail = (case r of
       Inr existing_docs \<Rightarrow>
         Log INFO (OfExisting (ExistingCount (length existing_docs))) #
                  (if length existing_docs \<le> 20
                   then Log INFO (OfExisting ExistingListHeader) #
                        map (\<lambda>doc_name. Log INFO (OfExisting (ExistingName doc_name)))
                          (map fst existing_docs)
                   else [Log INFO (OfExisting (ExistingMany (length existing_docs)))])
     | Inl e \<Rightarrow> [Log ERROR (OfExisting (ExistingFailed e))])"
  have res: "m = (case r of Inr found \<Rightarrow> found | Inl e \<Rightarrow> [])" "trace s' = trace s2"
     "out s' = out s2 @ tail"
    using assms f by (auto simp: get_existing_documents_def tail_def Let_def split: sum.splits)
  define xs where "xs = Log INFO (OfExisting ExistingBegin) #
          (if 1 + length rs = 1001 \<and> full_page (last rs) \<and> \<not> is_error r
           then [Log WARNING (OfExisting PageLimitReached)] else []) @ tail"
  have o: "out s' = out s @ xs" using res(3) run(7) by (simp add: xs_def)
  have tl: "\<forall>x \<in> set tail. \<exists>l x'. x = Log l (OfExisting x')"
    by (auto simp: tail_def split: sum.splits)
  show ?thesis
  proof (rule exI[of _ rs], rule exI[of _ fb], rule exI[of _ xs], intro conjI)
    show "trace s' = trace s @ paged_events ds 1 rs @ map (ListDocuments ds) fb"
      using run(1) res(2) by simp
    show "rs \<noteq> []" by (rule run(2))
    show "length rs \<le> 1000" using run(3) by simp
    show "\<forall>reply \<in> set (butlast rs). full_page reply" by (rule run(4))
    show "if last rs = Inl TypeError then length fb = 1 else fb = []" by (rule run(5))
    show "if (\<exists>reply \<in> set rs. fatal_reply reply) \<or> (\<exists>reply \<in> set fb. is_error reply)
         then m = [] \<and> (\<exists>e. last (rs @ fb) = Inl e \<and> last (out s') = Log ERROR (OfExisting (ExistingFailed e)))
         else m = (case add_documents (concat (map reply_docs (rs @ fb))) [] of
                     Inr found \<Rightarrow> found | Inl e \<Rightarrow> [])"
    proof (cases "(\<exists>reply \<in> set rs. fatal_reply reply) \<or> (\<exists>reply \<in> set fb. is_error reply)")
      case True
      with run(6) obtain e where e: "r = Inl e" "last (rs @ fb) = Inl e" by auto
      then have "m = []" "last (out s') = Log ERROR (OfExisting (ExistingFailed e))"
        using res(1,3) by (simp_all add: tail_def)
      with True e(2) show ?thesis by auto
    next
      case False
      with run(6) have "r = add_documents (concat (map reply_docs (rs @ fb))) []" by simp
      with False res(1) show ?thesis by (simp split: sum.splits)
    qed
    show "out s' = out s @ xs" by (rule o)
    show "\<forall>x \<in> set xs. \<exists>l x'. x = Log l (OfExisting x')"
      using tl by (auto simp: xs_def)
    have ner: "\<not> is_error r"
      if a: "full_page (last rs)
          \<and> \<not> is_error (add_documents (concat (map reply_docs (rs @ fb))) [])"
    proof (cases "(\<exists>reply \<in> set rs. fatal_reply reply) \<or> (\<exists>reply \<in> set fb. is_error reply)")
      case True
      have lf: "last rs \<noteq> Inl TypeError" using a by (auto simp: full_page_def)
      then have "fb = []" using run(5) by simp
      with True obtain reply where "reply \<in> set rs" "fatal_reply reply" by auto
      moreover have "\<not> fatal_reply (last rs)"
        using a by (auto simp: full_page_def fatal_reply_def split: sum.splits)
      moreover have "\<forall>reply \<in> set (butlast rs). \<not> fatal_reply reply"
        using run(4) by (auto simp: full_page_def fatal_reply_def split: sum.splits)
      ultimately show ?thesis using run(2)
        by (metis append_butlast_last_id insert_iff list.set(2) set_append Un_iff empty_set empty_iff)
    next
      case False
      then show ?thesis using run(6) a by simp
    qed
    show "length rs = 1000 \<and> full_page (last rs)
          \<and> \<not> is_error (add_documents (concat (map reply_docs (rs @ fb))) [])
         \<longrightarrow> Log WARNING (OfExisting PageLimitReached) \<in> set xs"
      using ner by (simp add: xs_def)
    show "full_page (last rs)
          \<and> \<not> is_error (add_documents (concat (map reply_docs (rs @ fb))) [])
         \<longrightarrow> length rs = 1000"
      using ner run(8) by simp
  qed
qed

lemma listing_paged_events: "ev \<in> set (paged_events ds p rs) \<Longrightarrow> listing_call ds ev"
  by (induction rs arbitrary: p) (auto simp: listing_call_def)

lemma listing_proj:
  "\<forall>ev \<in> set tr. listing_call ds ev \<Longrightarrow>
     read_log tr = [] \<and> upload_log tr = [] \<and> succeeded_count tr = 0 \<and> failed_names tr = []"
  by (induction tr)
     (auto simp: read_log_def upload_log_def succeeded_count_def failed_names_def listing_call_def
           split: event.splits)

lemma get_existing_documents_listing:
  assumes "get_existing_documents c ds s = (m, s')"
  shows "\<exists>pre xs. trace s' = trace s @ pre \<and> (\<forall>ev \<in> set pre. listing_call ds ev)
           \<and> out s' = out s @ xs \<and> (\<forall>x \<in> set xs. \<not> is_summary x)"
proof -
  from get_existing_documents_run[OF assms] obtain rs fb xs where
    a: "trace s' = trace s @ paged_events ds 1 rs @ map (ListDocuments ds) fb"
       "out s' = out s @ xs" "\<forall>x \<in> set xs. \<exists>l x'. x = Log l (OfExisting x')"
    by blast
  have "\<forall>ev \<in> set (paged_events ds 1 rs @ map (ListDocuments ds) fb). listing_call ds ev"
    by (auto simp: listing_paged_events) (simp add: listing_call_def)
  moreover have "\<forall>x \<in> set xs. \<not> is_summary x" using a(3) by (auto simp: is_summary_def)
  ultimately show ?thesis using a(1,2) by blast
qed

lemma upload_files_run:
  assumes "upload_files c ds files bs skip s0 = (r, s')"
  defines "s1 \<equiv> emit (Log INFO (OfUpload (UploadBegin (length files) bs skip))) s0"
  defines "ex \<equiv> (if skip then fst (get_existing_documents c ds s1) else [])"
  defines "to_upload \<equiv> filter (\<lambda>p. \<not> (skip \<and> path_name p \<in> fst ` set ex)) files"
  defines "skipped \<equiv> map path_str (filter (\<lambda>p. skip \<and> path_name p \<in> fst ` set ex) files)"
  defines "st0 \<equiv> \<lparr>total_files = length files, skipped_files = skipped,
                files_to_upload = to_upload, successful_uploads = 0, failed_uploads = []\<rparr>"
  shows "\<exists>pre s4 lines. trace s4 = trace s0 @ pre \<and> (\<forall>ev \<in> set pre. listing_call ds ev)
      \<and> (\<not> skip \<longrightarrow> pre = [])
      \<and> (skip \<longrightarrow> trace (snd (get_existing_documents c ds s1)) = trace s0 @ pre)
      \<and> out s4 = out s0 @ lines \<and> (\<forall>x \<in> set lines. \<not> is_summary x)
      \<and> (if to_upload = [] then r = Inr st0 \<and> s' = emit (Log INFO (OfUpload NothingNew)) s4
          else if bs = 0 then r = Inl ValueError \<and> s' = s4
          else \<exists>successful failed s5.
                 upload_batches c ds to_upload (nat bs)
                   (if bs < 0 then [] else range_from 0 (length to_upload) (nat bs)) (0, []) s4
                   = ((successful, failed), s5)
                 \<and> r = Inr (st0\<lparr>successful_uploads := successful, failed_uploads := failed\<rparr>)
                 \<and> s' = emits (summary (st0\<lparr>successful_uploads := successful,
                                               failed_uploads := failed\<rparr>)) s5)"
proof -
  define ph1 where "ph1 = (if skip
            then (case get_existing_documents c ds s1 of
                    (found, s) \<Rightarrow>
                      (found,
                       if found \<noteq> []
                       then emit (Log INFO (OfUpload (ExistingFound (length found)))) s
                       else s))
            else ([], s1))"
  obtain ex' s2 where p1: "ph1 = (ex', s2)" by (metis surj_pair)
  have ex': "ex' = ex"
    using p1 by (auto simp: ph1_def ex_def split: if_splits prod.splits)
  have "\<exists>pre xs. trace s2 = trace s0 @ pre \<and> (\<forall>ev \<in> set pre. listing_call ds ev) \<and> (\<not> skip \<longrightarrow> pre = [])
           \<and> (skip \<longrightarrow> trace (snd (get_existing_documents c ds s1)) = trace s0 @ pre)
           \<and> out s2 = out s0 @ xs \<and> (\<forall>x \<in> set xs. \<not> is_summary x)"
  proof (cases skip)
    case True
    obtain m sg where g: "get_existing_documents c ds s1 = (m, sg)" by (metis surj_pair)
    from get_existing_documents_listing[OF g] obtain pre xs where
      "trace sg = trace s1 @ pre" "\<forall>ev \<in> set pre. listing_call ds ev" "out sg = out s1 @ xs"
      "\<forall>x \<in> set xs. \<not> is_summary x" by blast
    moreover have "s2 = (if m \<noteq> [] then emit (Log INFO (OfUpload (ExistingFound (length m)))) sg else sg)"
      using p1 True g by (auto simp add: ph1_def)
    moreover have "snd (get_existing_documents c ds s1) = sg" using g by simp
    ultimately show ?thesis using True
      by (intro exI[of _ pre] exI[of _ "Log INFO (OfUpload (UploadBegin (length files) bs skip)) # xs @
             (if m \<noteq> [] then [Log INFO (OfUpload (ExistingFound (length m)))] else [])"])
         (auto simp: s1_def is_summary_def)
  next
    case False
    then have "s2 = s1" using p1 by (simp add: ph1_def)
    then show ?thesis using False
      by (intro exI[of _ "[]"] exI[of _ "[Log INFO (OfUpload (UploadBegin (length files) bs skip))]"])
         (auto simp: s1_def is_summary_def)
  qed
  then obtain pre xs where pre: "trace s2 = trace s0 @ pre" "\<forall>ev \<in> set pre. listing_call ds ev"
     "\<not> skip \<longrightarrow> pre = []" "out s2 = out s0 @ xs" "\<forall>x \<in> set xs. \<not> is_summary x"
     "skip \<longrightarrow> trace (snd (get_existing_documents c ds s1)) = trace s0 @ pre" by blast
  obtain up sk s3 where ff: "filter_files skip ex files ([], []) s2 = ((up, sk), s3)"
    by (metis surj_pair)
  from filter_files_run[OF ff] have f: "up = to_upload" "sk = skipped" "trace s3 = trace s2"
    "out s3 = out s2 @ map (\<lambda>p. Log INFO (OfUpload (SkipFile (path_name p))))
                        (filter (\<lambda>p. skip \<and> path_name p \<in> fst ` set ex) files)"
    by (simp_all add: to_upload_def skipped_def)
  define s4 where "s4 = (if skipped \<noteq> []
                then emit (Log INFO (OfUpload (SkipCount (length skipped) (length to_upload)))) s3
                else s3)"
  define lines where "lines = xs @ map (\<lambda>p. Log INFO (OfUpload (SkipFile (path_name p))))
                        (filter (\<lambda>p. skip \<and> path_name p \<in> fst ` set ex) files)
                @ (if skipped \<noteq> [] then [Log INFO (OfUpload (SkipCount (length skipped) (length to_upload)))] else [])"
  have s4: "trace s4 = trace s0 @ pre" "out s4 = out s0 @ lines"
    using f(3,4) pre(1,4) by (simp_all add: s4_def lines_def)
  have ln: "\<forall>x \<in> set lines. \<not> is_summary x"
    using pre(5) by (auto simp: lines_def is_summary_def)
  have main: "(r, s') = (if to_upload = [] then (Inr st0, emit (Log INFO (OfUpload NothingNew)) s4)
         else (case py_range0 (length to_upload) bs of
                 Inl e \<Rightarrow> (Inl e, s4)
               | Inr indices \<Rightarrow>
                   (case upload_batches c ds to_upload (nat bs) indices (0, []) s4 of
                      ((successful, failed), s5) \<Rightarrow>
                        (let st' = st0\<lparr>successful_uploads := successful,
                                       failed_uploads := failed\<rparr>
                         in (Inr st', emits (summary st') s5)))))"
    using assms(1) p1[unfolded ph1_def s1_def] ff[unfolded ex'[symmetric]] f(1,2)
    unfolding upload_files_def Let_def s4_def st0_def ex'
    by (simp add: s1_def)
  show ?thesis
  proof (rule exI[of _ pre], rule exI[of _ s4], rule exI[of _ lines], intro conjI)
    show "if to_upload = [] then r = Inr st0 \<and> s' = emit (Log INFO (OfUpload NothingNew)) s4
          else if bs = 0 then r = Inl ValueError \<and> s' = s4
          else \<exists>successful failed s5.
                 upload_batches c ds to_upload (nat bs)
                   (if bs < 0 then [] else range_from 0 (length to_upload) (nat bs)) (0, []) s4
                   = ((successful, failed), s5)
                 \<and> r = Inr (st0\<lparr>successful_uploads := successful, failed_uploads := failed\<rparr>)
                 \<and> s' = emits (summary (st0\<lparr>successful_uploads := successful,
                                               failed_uploads := failed\<rparr>)) s5"
      using main by (auto simp: py_range0_def Let_def split: prod.splits)
  qed (use s4 pre ln in auto)
qed

lemma chunk_names_nonempty:
  assumes "0 < b"
  shows "filter (\<lambda>names. names \<noteq> []) (map (\<lambda>i. map path_name (take b (drop i files))) (range_from 0 (length files) b))
       = map (\<lambda>k. map path_name (take b (drop (k * b) files))) [0..<(length files + b - 1) div b]"
proof -
  have "\<forall>i \<in> set (range_from 0 (length files) b). map path_name (take b (drop i files)) \<noteq> []"
    using range_from_lt[of _ 0 "length files" b] assms by fastforce
  then have f: "filter (\<lambda>names. names \<noteq> []) (map (\<lambda>i. map path_name (take b (drop i files))) (range_from 0 (length files) b))
      = map (\<lambda>i. map path_name (take b (drop i files))) (range_from 0 (length files) b)"
    by (simp add: filter_map o_def)
  have r: "range_from 0 (length files) b = map (\<lambda>k. k * b) [0..<(length files + b - 1) div b]"
    using range_from_mult[OF assms, of 0 "length files"] by simp
  show ?thesis unfolding f unfolding r by (simp add: o_def)
qed

lemma upload_files_pos:
  assumes "0 < bs" and "upload_files c ds files bs skip s0 = (r, s')"
  defines "s1 \<equiv> emit (Log INFO (OfUpload (UploadBegin (length files) bs skip))) s0"
  defines "ex \<equiv> (if skip then fst (get_existing_documents c ds s1) else [])"
  defines "to_upload \<equiv> filter (\<lambda>p. \<not> (skip \<and> path_name p \<in> fst ` set ex)) files"
  defines "skipped \<equiv> map path_str (filter (\<lambda>p. skip \<and> path_name p \<in> fst ` set ex) files)"
  shows "\<exists>st pre new. r = Inr st \<and> trace s' = trace s0 @ pre @ new
      \<and> (\<forall>ev \<in> set pre. listing_call ds ev) \<and> (\<not> skip \<longrightarrow> pre = [])
      \<and> total_files st = length files \<and> skipped_files st = skipped \<and> files_to_upload st = to_upload
      \<and> length (files_to_upload st) + length (skipped_files st) = length files
      \<and> map fst (read_log new) = files_to_upload st
      \<and> concat (map fst (upload_log new)) = read_docs (read_log new)
      \<and> successful_uploads st = succeeded_count new
      \<and> failed_uploads st = failed_names new
      \<and> succeeded_count new + length (failed_names new) = length (read_log new)
      \<and> (\<forall>ev \<in> set new. upload_phase ds ev)
      \<and> (read_failures (read_log new) = [] \<longrightarrow>
           map (map display_name \<circ> fst) (upload_log new)
             = map (\<lambda>k. map path_name (take (nat bs) (drop (k * nat bs) (files_to_upload st))))
                 [0..<(length (files_to_upload st) + nat bs - 1) div nat bs])"
proof -
  define st0 where "st0 = \<lparr>total_files = length files, skipped_files = skipped,
                files_to_upload = to_upload, successful_uploads = 0, failed_uploads = []\<rparr>"
  from upload_files_run[OF assms(2)] obtain pre s4 where
    a: "trace s4 = trace s0 @ pre" "\<forall>ev \<in> set pre. listing_call ds ev" "\<not> skip \<longrightarrow> pre = []"
    and b: "if to_upload = [] then r = Inr st0 \<and> s' = emit (Log INFO (OfUpload NothingNew)) s4
          else if bs = 0 then r = Inl ValueError \<and> s' = s4
          else \<exists>successful failed s5.
                 upload_batches c ds to_upload (nat bs)
                   (if bs < 0 then [] else range_from 0 (length to_upload) (nat bs)) (0, []) s4
                   = ((successful, failed), s5)
                 \<and> r = Inr (st0\<lparr>successful_uploads := successful, failed_uploads := failed\<rparr>)
                 \<and> s' = emits (summary (st0\<lparr>successful_uploads := successful,
                                               failed_uploads := failed\<rparr>)) s5"
    unfolding s1_def ex_def to_upload_def skipped_def st0_def by blast
  have nb: "0 < nat bs" using assms(1) by simp
  have len: "length to_upload + length skipped = length files"
    unfolding to_upload_def skipped_def length_map
    using sum_length_filter_compl[of "\<lambda>p. skip \<and> path_name p \<in> fst ` set ex" files]
    by (simp only: add.commute)
  show ?thesis
  proof (cases "to_upload = []")
    case True
    with b have "r = Inr st0" "trace s' = trace s0 @ pre @ []" using a(1) by simp_all
    then show ?thesis using a(2,3) True nb len
      by - (rule exI[of _ st0], rule exI[of _ pre], rule exI[of _ "[]"], simp add: st0_def)
  next
    case False
    with b assms(1) obtain successful failed s5 where
      run: "upload_batches c ds to_upload (nat bs) (range_from 0 (length to_upload) (nat bs)) (0, []) s4
                   = ((successful, failed), s5)"
      and r: "r = Inr (st0\<lparr>successful_uploads := successful, failed_uploads := failed\<rparr>)"
      and s': "s' = emits (summary (st0\<lparr>successful_uploads := successful,
                                               failed_uploads := failed\<rparr>)) s5"
      by auto
    from upload_batches_run[OF run] obtain new where new:
      "trace s5 = trace s4 @ new"
      "map fst (read_log new) = concat (map (\<lambda>i. take (nat bs) (drop i to_upload)) (range_from 0 (length to_upload) (nat bs)))"
      "concat (map fst (upload_log new)) = read_docs (read_log new)"
      "successful = 0 + succeeded_count new"
      "failed = [] @ failed_names new"
      "succeeded_count new + length (failed_names new) = length (read_log new)"
      "\<forall>ev \<in> set new. upload_phase ds ev"
      "read_failures (read_log new) = [] \<longrightarrow>
          map (map display_name \<circ> fst) (upload_log new)
            = filter (\<lambda>names. names \<noteq> []) (map (\<lambda>i. map path_name (take (nat bs) (drop i to_upload))) (range_from 0 (length to_upload) (nat bs)))"
      by blast
    have rd: "map fst (read_log new) = to_upload"
      using new(2) range_from_concat[OF nb, of to_upload 0] by simp
    define st where "st = st0\<lparr>successful_uploads := successful, failed_uploads := failed\<rparr>"
    have st: "files_to_upload st = to_upload" "skipped_files st = skipped"
      "total_files st = length files" "successful_uploads st = successful"
      "failed_uploads st = failed"
      by (simp_all add: st_def st0_def)
    show ?thesis
    proof (rule exI[of _ st], rule exI[of _ pre], rule exI[of _ new], intro conjI)
      show "r = Inr st" using r by (simp add: st_def)
      show "trace s' = trace s0 @ pre @ new" using s' new(1) a(1) by simp
      show "read_failures (read_log new) = [] \<longrightarrow>
           map (map display_name \<circ> fst) (upload_log new)
             = map (\<lambda>k. map path_name (take (nat bs) (drop (k * nat bs) (files_to_upload st))))
                 [0..<(length (files_to_upload st) + nat bs - 1) div nat bs]"
        unfolding st using new(8) chunk_names_nonempty[OF nb, of to_upload] by simp
    qed (use a new rd len st in simp_all)
  qed
qed

lemma new_events_split:
  assumes "trace s' = trace s @ pre @ new" and "\<forall>ev \<in> set pre. listing_call ds ev"
  shows "read_log (new_events s s') = read_log new" "upload_log (new_events s s') = upload_log new"
    "succeeded_count (new_events s s') = succeeded_count new"
    "failed_names (new_events s s') = failed_names new"
  using new_eventsI[OF assms(1)] listing_proj[OF assms(2)] by simp_all

lemma div_mult_add_less: fixes b q r :: nat assumes "r < b" shows "(q * b + r) div b = q"
  using assms by simp

lemma last_chunk_length:
  fixes b n :: nat
  assumes "0 < b" "0 < n"
  shows "min b (n - ((n + b - 1) div b - 1) * b) = (if n mod b = 0 then b else n mod b)"
proof (cases "n mod b = 0")
  case True
  define q where "q = n div b"
  have q: "n = q * b" using True div_mult_mod_eq[of n b] by (simp add: q_def)
  with assms have q0: "0 < q" by (cases q) auto
  have "n + b - 1 = q * b + (b - 1)" using q assms by simp
  moreover have "(q * b + (b - 1)) div b = q" using assms by (intro div_mult_add_less) simp
  ultimately have "(n + b - 1) div b = q" by simp
  then show ?thesis using True q q0 by (simp add: diff_mult_distrib)
next
  case False
  define d where "d = n div b"
  define m where "m = n mod b"
  have n: "n = d * b + m" and m: "0 < m" "m < b"
    using False assms by (simp_all add: d_def m_def)
  have "n + b - 1 = (d + 1) * b + (m - 1)" unfolding n using m by (simp add: algebra_simps)
  moreover have "((d + 1) * b + (m - 1)) div b = d + 1" using m by (intro div_mult_add_less) simp
  ultimately have "(n + b - 1) div b = d + 1" by simp
  then have "n - ((n + b - 1) div b - 1) * b = m" unfolding n by simp
  then show ?thesis using False m by (simp add: min_def m_def)
qed

lemma succeeded_count_upload_log:
  "succeeded_count tr
     = sum_list (map (\<lambda>(docs, r). if is_error r then 0 else length docs) (upload_log tr))"
  by (induction tr)
     (auto simp: succeeded_count_def upload_log_def is_error_def split: event.splits sum.splits)

lemma failed_names_upload_log:
  "read_failures (read_log tr) = [] \<Longrightarrow>
   failed_names tr
     = concat (map (\<lambda>(docs, r). if is_error r then map display_name docs else []) (upload_log tr))"
  by (induction tr)
     (auto simp: failed_names_def upload_log_def read_log_def read_failures_def is_error_def
           split: event.splits sum.splits)

lemma no_failure_totals:
  "\<forall>i < length ups. \<not> is_error (snd (ups ! i)) \<Longrightarrow>
     concat (map (\<lambda>(docs, r). if is_error r then map display_name docs else []) ups) = []
   \<and> sum_list (map (\<lambda>(docs, r). if is_error r then 0 else length docs) ups)
       = length (concat (map fst ups))"
proof (induction ups)
  case Nil
  then show ?case by simp
next
  case (Cons u ups)
  have "\<not> is_error (snd u)" using Cons.prems by auto
  moreover have "\<forall>i < length ups. \<not> is_error (snd (ups ! i))" using Cons.prems by auto
  ultimately show ?case using Cons.IH by (cases u) simp
qed

lemma one_failure_totals:
  "j < length ups \<Longrightarrow> is_error (snd (ups ! j)) \<Longrightarrow>
   \<forall>i < length ups. i \<noteq> j \<longrightarrow> \<not> is_error (snd (ups ! i)) \<Longrightarrow>
     concat (map (\<lambda>(docs, r). if is_error r then map display_name docs else []) ups)
       = map display_name (fst (ups ! j))
   \<and> sum_list (map (\<lambda>(docs, r). if is_error r then 0 else length docs) ups)
       + length (fst (ups ! j)) = length (concat (map fst ups))"
proof (induction ups arbitrary: j)
  case Nil
  then show ?case by simp
next
  case (Cons u ups)
  show ?case
  proof (cases j)
    case 0
    have "\<forall>i < length ups. \<not> is_error (snd (ups ! i))"
      using Cons.prems(3) 0 by auto
    from no_failure_totals[OF this] Cons.prems(2) 0 show ?thesis by (cases u) simp
  next
    case (Suc k)
    have u: "\<not> is_error (snd u)" using Cons.prems(3) Suc by auto
    have "k < length ups" "is_error (snd (ups ! k))"
      "\<forall>i < length ups. i \<noteq> k \<longrightarrow> \<not> is_error (snd (ups ! i))"
      using Cons.prems Suc by auto
    from Cons.IH[OF this] u Suc show ?thesis by (cases u) simp
  qed
qed

lemmas run_simps =
  upload_files_def upload_batch_def get_existing_documents_def py_range0_def range_from.simps
  fetch_pages.simps perform_def emit_def emits_def summary_def path_name_def doc_key_def
  plain_client_def scripted_def start_def kb_def remote_doc_def Let_def new_events_def new_out_def

lemmas observe_simps =
  read_log_def upload_log_def read_docs_def read_failures_def failed_names_def
  succeeded_count_def is_error_def

lemma read_docs_names: "set (map display_name (read_docs rs)) \<subseteq> path_name ` set (map fst rs)"
proof (induction rs)
  case (Cons a rs)
  then show ?case by (cases a; cases "snd a") auto
qed simp

lemma upload_files_any:
  assumes "upload_files c ds files bs skip s0 = (Inr st, s')"
  defines "s1 \<equiv> emit (Log INFO (OfUpload (UploadBegin (length files) bs skip))) s0"
  defines "ex \<equiv> (if skip then fst (get_existing_documents c ds s1) else [])"
  shows "files_to_upload st = filter (\<lambda>p. \<not> (skip \<and> path_name p \<in> fst ` set ex)) files
     \<and> skipped_files st = map path_str (filter (\<lambda>p. skip \<and> path_name p \<in> fst ` set ex) files)
     \<and> set (map fst (read_log (new_events s0 s'))) \<subseteq> set (files_to_upload st)
     \<and> concat (map fst (upload_log (new_events s0 s'))) = read_docs (read_log (new_events s0 s'))"
proof (cases "0 < bs")
  case True
  from upload_files_pos[OF True assms(1)] obtain st1 pre new where a:
    "Inr st = Inr st1" "trace s' = trace s0 @ pre @ new" "\<forall>ev \<in> set pre. listing_call ds ev"
    "skipped_files st1 = map path_str (filter (\<lambda>p. skip \<and> path_name p \<in> fst ` set ex) files)"
    "files_to_upload st1 = filter (\<lambda>p. \<not> (skip \<and> path_name p \<in> fst ` set ex)) files"
    "map fst (read_log new) = files_to_upload st1"
    "concat (map fst (upload_log new)) = read_docs (read_log new)"
    unfolding s1_def ex_def by blast
  note sp = new_events_split[OF a(2,3)]
  have "st1 = st" using a(1) by simp
  then show ?thesis using a(4,5,6,7) sp(1,2) by (simp only: simp_thms order_refl)
next
  case False
  define to_upload where "to_upload = filter (\<lambda>p. \<not> (skip \<and> path_name p \<in> fst ` set ex)) files"
  define skipped where "skipped = map path_str (filter (\<lambda>p. skip \<and> path_name p \<in> fst ` set ex) files)"
  define st0 where "st0 = \<lparr>total_files = length files, skipped_files = skipped,
                files_to_upload = to_upload, successful_uploads = 0, failed_uploads = []\<rparr>"
  define r where "r = (Inr st :: exn + upload_stats)"
  have run: "upload_files c ds files bs skip s0 = (r, s')" using assms(1) by (simp add: r_def)
  from upload_files_run[OF run] obtain pre s4 where
    a: "trace s4 = trace s0 @ pre" "\<forall>ev \<in> set pre. listing_call ds ev"
    and b: "if to_upload = [] then r = Inr st0 \<and> s' = emit (Log INFO (OfUpload NothingNew)) s4
          else if bs = 0 then r = Inl ValueError \<and> s' = s4
          else \<exists>successful failed s5.
                 upload_batches c ds to_upload (nat bs)
                   (if bs < 0 then [] else range_from 0 (length to_upload) (nat bs)) (0, []) s4
                   = ((successful, failed), s5)
                 \<and> r = Inr (st0\<lparr>successful_uploads := successful, failed_uploads := failed\<rparr>)
                 \<and> s' = emits (summary (st0\<lparr>successful_uploads := successful,
                                               failed_uploads := failed\<rparr>)) s5"
    unfolding s1_def ex_def to_upload_def skipped_def st0_def by blast
  have "files_to_upload st = to_upload \<and> skipped_files st = skipped \<and> trace s' = trace s0 @ pre @ []"
  proof (cases "to_upload = []")
    case True
    with b have "r = Inr st0" "s' = emit (Log INFO (OfUpload NothingNew)) s4" by simp_all
    then have "st = st0" "trace s' = trace s4" by (simp_all add: r_def)
    then show ?thesis using a(1) by (simp add: st0_def)
  next
    case ne: False
    have "bs \<noteq> 0"
    proof
      assume "bs = 0"
      with b ne have "r = Inl ValueError" by simp
      then show False by (simp add: r_def)
    qed
    then have neg: "bs < 0" using False by simp
    from b ne \<open>bs \<noteq> 0\<close> neg obtain successful failed s5 where
      u: "upload_batches c ds to_upload (nat bs) [] (0, []) s4 = ((successful, failed), s5)"
      and r: "r = Inr (st0\<lparr>successful_uploads := successful, failed_uploads := failed\<rparr>)"
      and s': "s' = emits (summary (st0\<lparr>successful_uploads := successful,
                                               failed_uploads := failed\<rparr>)) s5"
      by (simp only: if_False if_True) blast
    from u have "s5 = s4" by simp
    with s' have "trace s' = trace s4" by simp
    moreover from r have "st = st0\<lparr>successful_uploads := successful, failed_uploads := failed\<rparr>"
      by (simp add: r_def)
    ultimately show ?thesis using a(1) by (simp add: st0_def)
  qed
  then have c: "files_to_upload st = to_upload" "skipped_files st = skipped"
     "trace s' = trace s0 @ pre @ []" by simp_all
  note sp = new_events_split[OF c(3) a(2)]
  have "read_log (new_events s0 s') = []" "upload_log (new_events s0 s') = []"
    using sp(1,2) by simp_all
  then show ?thesis using c(1,2) unfolding to_upload_def skipped_def by simp
qed

lemma get_or_create_dataset_run:
  assumes "get_or_create_dataset c name s = (r, s')"
  shows "(\<exists>d ds. fst (list_datasets c name (world s)) = Inr (d # ds) \<and> r = Inr d
            \<and> trace s' = trace s @ [ListDatasets name (Inr (d # ds))])
       \<or> (\<exists>found. fst (list_datasets c name (world s)) = found \<and> (\<forall>d ds. found \<noteq> Inr (d # ds))
            \<and> trace s' = trace s @ [ListDatasets name found,
                  CreateDataset name (description_prefix @ name) ''naive'' ''me'' r]
            \<and> (\<forall>e. found = Inl e \<longrightarrow> Log ERROR (OfDataset (DatasetLookupError e)) \<in> set (new_out s s')))"
  using assms
  by (auto simp: get_or_create_dataset_def Let_def perform_def new_out_def
           split: prod.splits sum.splits list.splits)

lemma get_files_from_directory_run:
  assumes "get_files_from_directory c dir s = (r, s')"
  shows "\<exists>b rest. trace s' = trace s @ PathExists dir b # rest
          \<and> (b \<longleftrightarrow> fst (path_exists c dir (world s)))
          \<and> (\<not> b \<longrightarrow> rest = [] \<and> r = Inl (FileNotFoundError dir))"
  using assms
  by (auto simp: get_files_from_directory_def Let_def perform_def
           split: prod.splits bool.splits)

lemma upload_batches_grows:
  "upload_batches c ds files b idxs acc s = (acc', s') \<Longrightarrow> \<exists>new. trace s' = trace s @ new"
  using upload_batches_run[of c ds files b idxs "fst acc" "snd acc" s "fst acc'" "snd acc'" s']
  by auto

lemma upload_files_grows:
  assumes "upload_files c ds files bs skip s0 = (r, s')"
  shows "\<exists>new. trace s' = trace s0 @ new"
proof -
  define ex where "ex = (if skip then fst (get_existing_documents c ds
      (emit (Log INFO (OfUpload (UploadBegin (length files) bs skip))) s0)) else [])"
  define to_upload where
    "to_upload = filter (\<lambda>p. \<not> (skip \<and> path_name p \<in> fst ` set ex)) files"
  define skipped where
    "skipped = map path_str (filter (\<lambda>p. skip \<and> path_name p \<in> fst ` set ex) files)"
  define st0 where "st0 = \<lparr>total_files = length files, skipped_files = skipped,
                files_to_upload = to_upload, successful_uploads = 0, failed_uploads = []\<rparr>"
  from upload_files_run[OF assms] obtain pre s4 where
    a: "trace s4 = trace s0 @ pre"
    and b: "if to_upload = [] then r = Inr st0 \<and> s' = emit (Log INFO (OfUpload NothingNew)) s4
          else if bs = 0 then r = Inl ValueError \<and> s' = s4
          else \<exists>successful failed s5.
                 upload_batches c ds to_upload (nat bs)
                   (if bs < 0 then [] else range_from 0 (length to_upload) (nat bs)) (0, []) s4
                   = ((successful, failed), s5)
                 \<and> r = Inr (st0\<lparr>successful_uploads := successful, failed_uploads := failed\<rparr>)
                 \<and> s' = emits (summary (st0\<lparr>successful_uploads := successful,
                                               failed_uploads := failed\<rparr>)) s5"
    unfolding ex_def to_upload_def skipped_def st0_def by blast
  show ?thesis
  proof (cases "to_upload = []")
    case True
    with b a show ?thesis by simp
  next
    case ne: False
    show ?thesis
    proof (cases "bs = 0")
      case True
      with b ne a show ?thesis by simp
    next
      case False
      with b ne obtain successful failed s5 where
        u: "upload_batches c ds to_upload (nat bs)
                   (if bs < 0 then [] else range_from 0 (length to_upload) (nat bs)) (0, []) s4
                   = ((successful, failed), s5)"
        and s': "s' = emits (summary (st0\<lparr>successful_uploads := successful,
                                               failed_uploads := failed\<rparr>)) s5"
        by (simp only: if_False) blast
      from upload_batches_grows[OF u] obtain new where "trace s5 = trace s4 @ new" by blast
      then show ?thesis using a s' by simp
    qed
  qed
qed

lemma start_parsing_grows: "\<exists>new. trace (start_parsing c ds s) = trace s @ new"
  by (auto simp: start_parsing_def Let_def perform_def split: prod.splits sum.splits)

lemma main_run:
  assumes "main c a s0 = (code, sf)"
  shows "\<exists>rr s2. get_or_create_dataset c (arg_dataset_name a) (emits (startup_lines a) s0) = (rr, s2)
     \<and> (case rr of
           Inl e \<Rightarrow> code = 1 \<and> trace sf = trace s2 \<and> last (out sf) = Print (OfMain (RunError e))
         | Inr d \<Rightarrow>
             (\<exists>fr s3. get_files_from_directory c (arg_directory a) s2 = (fr, s3)
                \<and> (case fr of
                      Inl e \<Rightarrow> code = 1 \<and> trace sf = trace s3
                                \<and> last (out sf) = Print (OfMain (RunError e))
                    | Inr files \<Rightarrow> (\<exists>more. trace sf = trace s3 @ more))))"
proof -
  obtain rr s2 where g: "get_or_create_dataset c (arg_dataset_name a) (emits (startup_lines a) s0) = (rr, s2)"
    by (metis surj_pair)
  show ?thesis
  proof (cases rr)
    case (Inl e)
    with assms g show ?thesis by (auto simp add: main_def Let_def)
  next
    case (Inr d)
    obtain fr s3 where f: "get_files_from_directory c (arg_directory a) s2 = (fr, s3)"
      by (metis surj_pair)
    show ?thesis
    proof (cases fr)
      case (Inl e)
      with assms g f Inr show ?thesis by (auto simp add: main_def Let_def)
    next
      case fi: (Inr files)
      have "\<exists>more. trace sf = trace s3 @ more"
      proof (cases "files = []")
        case True
        with assms g f Inr fi show ?thesis by (auto simp add: main_def Let_def)
      next
        case False
        obtain ur s4 where u: "upload_files c d files (arg_batch_size a) (arg_skip_existing a) s3 = (ur, s4)"
          by (metis surj_pair)
        from upload_files_grows[OF u] obtain n1 where n1: "trace s4 = trace s3 @ n1" by blast
        show ?thesis
        proof (cases ur)
          case (Inl e)
          with assms g f Inr fi False u n1 show ?thesis by (auto simp add: main_def Let_def)
        next
          case ok: (Inr st)
          obtain n2 where n2: "trace (start_parsing c d s4) = trace s4 @ n2"
            using start_parsing_grows by blast
          from assms g f Inr fi False u ok n1 n2 show ?thesis
            by (cases "arg_no_parse a") (auto simp add: main_def Let_def)
        qed
      qed
      with g f Inr fi show ?thesis by simp
    qed
  qed
qed

lemmas main_simps =
  main_def startup_lines_def masked_key_def get_or_create_dataset_def
  get_files_from_directory_def no_dir_client_def lookup_down_client_def demo_args_def

lemma upload_steps_append [simp]: "upload_steps (xs @ ys) = upload_steps xs @ upload_steps ys"
  by (simp add: upload_steps_def)

lemma upload_steps_nil [simp]: "upload_steps [] = []"
  by (simp add: upload_steps_def)

lemma upload_steps_reads: "upload_steps (map read_event rs) = map Inl rs"
  by (induction rs) (simp_all add: upload_steps_def read_event_def)

lemma upload_steps_uploads:
  "upload_steps (map (\<lambda>(docs, r). UploadDocuments ds docs r) ul) = map Inr (map fst ul)"
  by (induction ul) (auto simp: upload_steps_def)

lemma upload_steps_listing: "\<forall>ev \<in> set pre. listing_call ds ev \<Longrightarrow> upload_steps pre = []"
  by (induction pre) (auto simp: upload_steps_def listing_call_def split: event.splits)

lemma upload_steps_payloads:
  "map fst (upload_log tr)
     = concat (map (\<lambda>step. case step of Inl pr \<Rightarrow> [] | Inr docs \<Rightarrow> [docs]) (upload_steps tr))"
  by (induction tr) (auto simp: upload_steps_def upload_log_def split: event.splits)

lemma batch_payloads:
  "concat (map (\<lambda>step. case step of Inl pr \<Rightarrow> [] | Inr docs \<Rightarrow> [docs])
             (concat (map batch_steps rss)))
     = filter (\<lambda>docs. docs \<noteq> []) (map read_docs rss)"
proof (induction rss)
  case Nil
  show ?case by simp
next
  case (Cons rs rss)
  have "concat (map (\<lambda>step. case step of Inl pr \<Rightarrow> [] | Inr docs \<Rightarrow> [docs]) (map Inl rs)) = []"
    for rs :: "(path \<times> (exn + bytes)) list"
    by (induction rs) simp_all
  then show ?case using Cons by (simp add: batch_steps_def)
qed

lemma upload_batch_steps:
  assumes "upload_batch c ds files b i (successful, failed) s = ((successful', failed'), s')"
  shows "\<exists>seg. trace s' = trace s @ seg \<and> map fst (read_log seg) = take b (drop i files)
     \<and> upload_steps seg = batch_steps (read_log seg)"
proof -
  from upload_batch_seg[OF assms] obtain seg where seg:
    "trace s' = trace s @ seg"
    "map fst (read_log seg) = take b (drop i files)"
    "seg = map read_event (read_log seg) @ map (\<lambda>(docs, r). UploadDocuments ds docs r) (upload_log seg)"
    "map fst (upload_log seg) = (if read_docs (read_log seg) = [] then [] else [read_docs (read_log seg)])"
    by blast
  define rs where "rs = read_log seg"
  define ul where "ul = upload_log seg"
  have "upload_steps seg = upload_steps (map read_event rs @ map (\<lambda>(docs, r). UploadDocuments ds docs r) ul)"
    using seg(3) unfolding rs_def ul_def by simp
  also have "\<dots> = map Inl rs @ map Inr (map fst ul)"
    by (simp add: upload_steps_reads upload_steps_uploads)
  also have "\<dots> = batch_steps rs"
    using seg(4) unfolding rs_def ul_def batch_steps_def by simp
  finally show ?thesis using seg(1,2) unfolding rs_def by blast
qed

lemma upload_batches_steps:
  "upload_batches c ds files b idxs (successful, failed) s = ((successful', failed'), s') \<Longrightarrow>
   \<exists>new rss. trace s' = trace s @ new
     \<and> map (map fst) rss = map (\<lambda>i. take b (drop i files)) idxs
     \<and> read_log new = concat rss
     \<and> upload_steps new = concat (map batch_steps rss)"
proof (induction idxs arbitrary: successful failed s)
  case Nil
  then show ?case by simp
next
  case (Cons i idxs)
  obtain succ1 failed1 s1 where b1: "upload_batch c ds files b i (successful, failed) s = ((succ1, failed1), s1)"
    by (metis surj_pair)
  with Cons.prems have rest: "upload_batches c ds files b idxs (succ1, failed1) s1 = ((successful', failed'), s')"
    by simp
  from upload_batch_steps[OF b1] obtain seg where seg:
    "trace s1 = trace s @ seg"
    "map fst (read_log seg) = take b (drop i files)"
    "upload_steps seg = batch_steps (read_log seg)"
    by blast
  from Cons.IH[OF rest] obtain new rss where new:
    "trace s' = trace s1 @ new"
    "map (map fst) rss = map (\<lambda>i. take b (drop i files)) idxs"
    "read_log new = concat rss"
    "upload_steps new = concat (map batch_steps rss)"
    by blast
  have "trace s' = trace s @ (seg @ new)" using seg(1) new(1) by simp
  moreover have "map (map fst) (read_log seg # rss) = map (\<lambda>i. take b (drop i files)) (i # idxs)"
    using seg(2) new(2) by simp
  moreover have "read_log (seg @ new) = concat (read_log seg # rss)" using new(3) by simp
  moreover have "upload_steps (seg @ new) = concat (map batch_steps (read_log seg # rss))"
    using seg(3) new(4) by simp
  ultimately show ?case by blast
qed

lemma chunks_of_concat:
  "rss \<noteq> [] \<Longrightarrow> \<forall>k. Suc k < length rss \<longrightarrow> length (rss ! k) = b \<Longrightarrow> length (last rss) \<le> b \<Longrightarrow>
     map (\<lambda>k. take b (drop (k * b) (concat rss))) [0..<length rss] = rss"
proof (induction rss)
  case Nil
  then show ?case by simp
next
  case (Cons rs rss)
  show ?case
  proof (cases "rss = []")
    case True
    with Cons.prems(3) show ?thesis by simp
  next
    case False
    have len: "length rs = b" using Cons.prems(2) False by (cases rss) auto
    have a: "\<forall>k. Suc k < length rss \<longrightarrow> length (rss ! k) = b"
    proof (intro allI impI)
      fix k assume "Suc k < length rss"
      then have "Suc (Suc k) < length (rs # rss)" by simp
      with Cons.prems(2) have "length ((rs # rss) ! Suc k) = b" by blast
      then show "length (rss ! k) = b" by simp
    qed
    have l: "length (last rss) \<le> b" using Cons.prems(3) False by simp
    note ih = Cons.IH[OF False a l]
    have up: "[0..<length (rs # rss)] = 0 # map Suc [0..<length rss]"
      by (simp add: upt_conv_Cons map_Suc_upt del: upt_Suc)
    have tl: "map (\<lambda>k. take b (drop (k * b) (concat (rs # rss)))) (map Suc [0..<length rss])
        = map (\<lambda>k. take b (drop (k * b) (concat rss))) [0..<length rss]"
      using len by (simp add: o_def)
    have hd: "take b (drop (0 * b) (concat (rs # rss))) = rs" using len by simp
    show ?thesis unfolding up list.map hd tl ih ..
  qed
qed

lemma chunk_full:
  fixes b n k :: nat
  assumes "0 < b" "Suc k < (n + b - 1) div b"
  shows "min b (n - k * b) = b"
proof -
  have "Suc k * b < n" using ceil_div_less[OF assms(1), of "Suc k" n] assms(2) by simp
  then show ?thesis by simp
qed

lemma upload_files_steps:
  assumes "0 < bs" and "upload_files c ds files bs skip s0 = (r, s')"
  shows "upload_steps (new_events s0 s')
     = concat (map (\<lambda>k. batch_steps (take (nat bs) (drop (k * nat bs) (read_log (new_events s0 s')))))
                 [0..<(length (read_log (new_events s0 s')) + nat bs - 1) div nat bs])"
proof -
  define s1 where "s1 = emit (Log INFO (OfUpload (UploadBegin (length files) bs skip))) s0"
  define ex where "ex = (if skip then fst (get_existing_documents c ds s1) else [])"
  define to_upload where "to_upload = filter (\<lambda>p. \<not> (skip \<and> path_name p \<in> fst ` set ex)) files"
  define skipped where "skipped = map path_str (filter (\<lambda>p. skip \<and> path_name p \<in> fst ` set ex) files)"
  define st0 where "st0 = \<lparr>total_files = length files, skipped_files = skipped,
                files_to_upload = to_upload, successful_uploads = 0, failed_uploads = []\<rparr>"
  define b where "b = nat bs"
  define n where "n = length to_upload"
  from upload_files_run[OF assms(2)] obtain pre s4 where
    a: "trace s4 = trace s0 @ pre" "\<forall>ev \<in> set pre. listing_call ds ev"
    and run: "if to_upload = [] then r = Inr st0 \<and> s' = emit (Log INFO (OfUpload NothingNew)) s4
          else if bs = 0 then r = Inl ValueError \<and> s' = s4
          else \<exists>successful failed s5.
                 upload_batches c ds to_upload (nat bs)
                   (if bs < 0 then [] else range_from 0 (length to_upload) (nat bs)) (0, []) s4
                   = ((successful, failed), s5)
                 \<and> r = Inr (st0\<lparr>successful_uploads := successful, failed_uploads := failed\<rparr>)
                 \<and> s' = emits (summary (st0\<lparr>successful_uploads := successful,
                                               failed_uploads := failed\<rparr>)) s5"
    unfolding s1_def ex_def to_upload_def skipped_def st0_def by blast
  have b: "0 < b" using assms(1) by (simp add: b_def)
  note lp = listing_proj[OF a(2)] upload_steps_listing[OF a(2)]
  show ?thesis
  proof (cases "to_upload = []")
    case True
    with run have "trace s' = trace s0 @ pre" using a(1) by simp
    then have ne: "new_events s0 s' = pre" by (rule new_eventsI)
    have "(0 + b - 1) div b = 0" using b by simp
    then show ?thesis unfolding ne b_def[symmetric] using lp by simp
  next
    case False
    with run assms(1) obtain successful failed s5 where
      u: "upload_batches c ds to_upload b (range_from 0 n b) (0, []) s4 = ((successful, failed), s5)"
      and s': "s' = emits (summary (st0\<lparr>successful_uploads := successful,
                                               failed_uploads := failed\<rparr>)) s5"
      unfolding b_def n_def by auto
    from upload_batches_steps[OF u] obtain new rss where new:
      "trace s5 = trace s4 @ new"
      "map (map fst) rss = map (\<lambda>i. take b (drop i to_upload)) (range_from 0 n b)"
      "read_log new = concat rss"
      "upload_steps new = concat (map batch_steps rss)"
      by blast
    define nb where "nb = (n + b - 1) div b"
    have rf: "range_from 0 n b = map (\<lambda>k. k * b) [0..<nb]"
      using range_from_mult[OF b, of 0 n] by (simp add: nb_def)
    have shape: "map (map fst) rss = map (\<lambda>k. take b (drop (k * b) to_upload)) [0..<nb]"
      unfolding new(2) rf by (simp add: o_def)
    have lr: "length rss = nb" using arg_cong[OF shape, of length] by simp
    have each: "length (rss ! k) = min b (n - k * b)" if "k < nb" for k
    proof -
      have "map fst (rss ! k) = map (map fst) rss ! k" using that lr by simp
      also have "\<dots> = take b (drop (k * b) to_upload)" unfolding shape using that by simp
      finally have "length (map fst (rss ! k)) = length (take b (drop (k * b) to_upload))" by simp
      then show ?thesis by (simp add: n_def min.commute)
    qed
    have n0: "0 < n" using False by (simp add: n_def)
    have nb0: "0 < nb" using ceil_div_less[OF b, of 0 n] n0 by (simp add: nb_def)
    have ne: "rss \<noteq> []" using lr nb0 by auto
    have full: "\<forall>k. Suc k < length rss \<longrightarrow> length (rss ! k) = b"
    proof (intro allI impI)
      fix k assume k: "Suc k < length rss"
      then have "k < nb" using lr by simp
      from each[OF this] chunk_full[OF b, of k n] k lr show "length (rss ! k) = b"
        by (simp add: nb_def)
    qed
    have lst: "length (last rss) \<le> b"
    proof -
      have "last rss = rss ! (nb - 1)" using ne lr by (simp add: last_conv_nth)
      then show ?thesis using each[of "nb - 1"] nb0 by simp
    qed
    note ch = chunks_of_concat[OF ne full lst]
    have tr: "trace s' = trace s0 @ pre @ new" using s' new(1) a(1) by simp
    then have nev: "new_events s0 s' = pre @ new" by (rule new_eventsI)
    have rl: "read_log (new_events s0 s') = concat rss" unfolding nev using lp new(3) by simp
    have ln: "length (concat rss) = n"
    proof -
      have "map fst (concat rss) = concat (map (map fst) rss)" by (simp add: map_concat)
      also have "\<dots> = concat (map (\<lambda>i. take b (drop i to_upload)) (range_from 0 n b))"
        unfolding new(2) ..
      also have "\<dots> = to_upload" using range_from_concat[OF b, of to_upload 0] by (simp add: n_def)
      finally have "length (map fst (concat rss)) = n" by (simp add: n_def)
      then show ?thesis by simp
    qed
    have "upload_steps (new_events s0 s') = concat (map batch_steps rss)"
      unfolding nev using lp new(4) by simp
    also have "\<dots> = concat (map batch_steps (map (\<lambda>k. take b (drop (k * b) (concat rss))) [0..<length rss]))"
      unfolding ch ..
    also have "\<dots> = concat (map (\<lambda>k. batch_steps (take b (drop (k * b) (concat rss)))) [0..<nb])"
      unfolding lr by (simp add: o_def)
    finally show ?thesis unfolding rl ln b_def[symmetric] nb_def .
  qed
qed

lemma no_upload_error_count:
  "\<forall>call \<in> set ups. \<not> is_error (snd call) \<Longrightarrow>
     sum_list (map (\<lambda>(docs, r). if is_error r then 0 else length docs) ups)
       = length (concat (map fst ups))"
  by (induction ups) auto

lemma no_upload_error_names:
  "\<forall>call \<in> set (upload_log tr). \<not> is_error (snd call) \<Longrightarrow>
     failed_names tr = read_failures (read_log tr)"
proof (induction tr)
  case Nil
  show ?case by simp
next
  case (Cons ev tr)
  have split: "ev # tr = [ev] @ tr" by simp
  have rest: "\<forall>call \<in> set (upload_log tr). \<not> is_error (snd call)"
    using Cons.prems unfolding split upload_log_append by simp
  have hd: "\<forall>call \<in> set (upload_log [ev]). \<not> is_error (snd call)"
    using Cons.prems unfolding split upload_log_append by simp
  have "failed_names [ev] = read_failures (read_log [ev])"
    using hd
    by (cases ev)
       (auto simp: failed_names_def upload_log_def read_log_def read_failures_def is_error_def
             split: sum.splits)
  then show ?case unfolding split failed_names_append read_log_append read_failures_append
    using Cons.IH[OF rest] by simp
qed

lemma read_failures_recorded: "set (read_failures (read_log tr)) \<subseteq> set (failed_names tr)"
proof (induction tr)
  case Nil
  show ?case by simp
next
  case (Cons ev tr)
  have split: "ev # tr = [ev] @ tr" by simp
  have "set (read_failures (read_log [ev])) \<subseteq> set (failed_names [ev])"
    by (cases ev) (auto simp: failed_names_def read_log_def read_failures_def split: sum.splits)
  then show ?case unfolding split failed_names_append read_log_append read_failures_append
    using Cons.IH by auto
qed

lemma paged_events_zip:
  "paged_events ds p rs
     = map (\<lambda>(page, reply). ListDocumentsPaged ds page 50 reply) (List.enumerate p rs)"
  by (induction rs arbitrary: p) simp_all

lemma paged_log_paged_events:
  "paged_log (paged_events ds p rs) = map (\<lambda>(page, reply). (page, 50, reply)) (List.enumerate p rs)"
  "unpaged_log (paged_events ds p rs) = []"
  by (induction rs arbitrary: p) (simp_all add: paged_log_def unpaged_log_def)

lemma paged_log_unpaged:
  "paged_log (map (ListDocuments ds) fb) = []" "unpaged_log (map (ListDocuments ds) fb) = fb"
  by (induction fb) (simp_all add: paged_log_def unpaged_log_def)

lemma paged_log_append: "paged_log (xs @ ys) = paged_log xs @ paged_log ys"
  "unpaged_log (xs @ ys) = unpaged_log xs @ unpaged_log ys"
  by (simp_all add: paged_log_def unpaged_log_def)

lemma listing_shape:
  assumes "new = paged_events ds 1 rs @ map (ListDocuments ds) fb"
  shows "map (snd \<circ> snd) (paged_log new) = rs" "length (paged_log new) = length rs"
    "unpaged_log new = fb"
    "map (\<lambda>(page, page_size, reply). (page, page_size)) (paged_log new)
       = map (\<lambda>page. (page, 50)) [1..<Suc (length rs)]"
    "new = map (\<lambda>(page, page_size, reply). ListDocumentsPaged ds page page_size reply) (paged_log new)
           @ map (ListDocuments ds) (unpaged_log new)"
proof -
  have pl: "paged_log new = map (\<lambda>(page, reply). (page, 50, reply)) (List.enumerate 1 rs)"
    unfolding assms by (simp add: paged_log_append paged_log_paged_events paged_log_unpaged)
  show ul: "unpaged_log new = fb"
    unfolding assms by (simp add: paged_log_append paged_log_paged_events paged_log_unpaged)
  have z1: "map snd (List.enumerate 1 rs) = rs" by simp
  have z2: "map fst (List.enumerate 1 rs) = [1..<Suc (length rs)]" by (simp del: upt_Suc)
  have "map (snd \<circ> snd) (paged_log new) = map snd (List.enumerate 1 rs)"
    unfolding pl by (simp add: o_def case_prod_unfold)
  then show "map (snd \<circ> snd) (paged_log new) = rs" unfolding z1 .
  show "length (paged_log new) = length rs" unfolding pl by simp
  have "map (\<lambda>(page, page_size, reply). (page, page_size)) (paged_log new)
       = map (\<lambda>x. (fst x, 50)) (List.enumerate 1 rs)"
    unfolding pl by (simp add: o_def case_prod_unfold)
  also have "\<dots> = map (\<lambda>page. (page, 50)) (map fst (List.enumerate 1 rs))"
    by (simp only: map_map o_def)
  finally show "map (\<lambda>(page, page_size, reply). (page, page_size)) (paged_log new)
       = map (\<lambda>page. (page, 50)) [1..<Suc (length rs)]"
    unfolding z2 .
  have "map (\<lambda>(page, page_size, reply). ListDocumentsPaged ds page page_size reply) (paged_log new)
      = paged_events ds 1 rs"
    unfolding pl paged_events_zip by (simp add: o_def case_prod_unfold)
  then show "new = map (\<lambda>(page, page_size, reply). ListDocumentsPaged ds page page_size reply) (paged_log new)
           @ map (ListDocuments ds) (unpaged_log new)"
    unfolding ul using assms by simp
qed

lemma paged_events_last:
  "rs \<noteq> [] \<Longrightarrow> last (paged_events ds p rs) = ListDocumentsPaged ds (p + length rs - 1) 50 (last rs)"
proof (induction rs arbitrary: p)
  case Nil
  then show ?case by simp
next
  case (Cons r rs)
  show ?case
  proof (cases "rs = []")
    case True
    then show ?thesis by simp
  next
    case False
    then have "paged_events ds (Suc p) rs \<noteq> []" by (cases rs) simp_all
    then show ?thesis using Cons.IH[OF False, of "Suc p"] False by simp
  qed
qed

lemma paged_events_member:
  "ev \<in> set (paged_events ds p rs) \<Longrightarrow>
     \<exists>i < length rs. ev = ListDocumentsPaged ds (p + i) 50 (rs ! i)"
proof (induction rs arbitrary: p)
  case Nil
  then show ?case by simp
next
  case (Cons r rs)
  from Cons.prems have "ev = ListDocumentsPaged ds p 50 r \<or> ev \<in> set (paged_events ds (Suc p) rs)"
    by simp
  then show ?case
  proof
    assume "ev = ListDocumentsPaged ds p 50 r"
    then show ?thesis by (intro exI[of _ 0]) simp
  next
    assume "ev \<in> set (paged_events ds (Suc p) rs)"
    from Cons.IH[OF this] obtain i where "i < length rs" "ev = ListDocumentsPaged ds (Suc p + i) 50 (rs ! i)"
      by blast
    then show ?thesis by (intro exI[of _ "Suc i"]) simp
  qed
qed

lemma fatal_only_last:
  assumes "\<forall>reply \<in> set (butlast rs). full_page reply" and "i < length rs" and "fatal_reply (rs ! i)"
  shows "Suc i = length rs"
proof (rule ccontr)
  assume "Suc i \<noteq> length rs"
  with assms(2) have "i < length (butlast rs)" by simp
  then have "rs ! i \<in> set (butlast rs)" by (metis nth_butlast nth_mem)
  with assms(1) have "full_page (rs ! i)" by blast
  with assms(3) show False by (auto simp: full_page_def fatal_reply_def split: sum.splits)
qed

lemma inventory_empty_on_error:
  assumes "get_existing_documents c ds s = (existing_docs, s')"
    and "ev \<in> set (new_events s s')" and "listing_error ev = Some e"
  shows "existing_docs = [] \<and> ev = last (new_events s s')
     \<and> last (out s') = Log ERROR (OfExisting (ExistingFailed e))"
proof -
  from get_existing_documents_run[OF assms(1)] obtain rs fb where run:
    "trace s' = trace s @ paged_events ds 1 rs @ map (ListDocuments ds) fb"
    "rs \<noteq> []"
    "\<forall>reply \<in> set (butlast rs). full_page reply"
    "if last rs = Inl TypeError then length fb = 1 else fb = []"
    "if (\<exists>reply \<in> set rs. fatal_reply reply) \<or> (\<exists>reply \<in> set fb. is_error reply)
         then existing_docs = [] \<and> (\<exists>e. last (rs @ fb) = Inl e \<and> last (out s') = Log ERROR (OfExisting (ExistingFailed e)))
         else existing_docs = (case add_documents (concat (map reply_docs (rs @ fb))) [] of
                     Inr found \<Rightarrow> found | Inl e \<Rightarrow> [])"
    by blast
  have new: "new_events s s' = paged_events ds 1 rs @ map (ListDocuments ds) fb"
    using run(1) by (rule new_eventsI)
  have pne: "paged_events ds 1 rs \<noteq> []" using run(2) by (cases rs) simp_all
  from assms(2) new have "ev \<in> set (paged_events ds 1 rs) \<or> ev \<in> set (map (ListDocuments ds) fb)"
    by auto
  then have k: "((\<exists>reply \<in> set rs. fatal_reply reply) \<or> (\<exists>reply \<in> set fb. is_error reply))
      \<and> last (rs @ fb) = Inl e \<and> ev = last (new_events s s')"
  proof
    assume "ev \<in> set (paged_events ds 1 rs)"
    from paged_events_member[OF this] obtain i where
      i: "i < length rs" "ev = ListDocumentsPaged ds (1 + i) 50 (rs ! i)" by blast
    from assms(3) i(2) have f: "rs ! i = Inl e" "e \<noteq> TypeError"
      by (auto simp: listing_error_def split: sum.splits if_splits)
    then have fr: "fatal_reply (rs ! i)" by (simp add: fatal_reply_def)
    from fatal_only_last[OF run(3) i(1) fr] have l: "Suc i = length rs" .
    have "i = length rs - 1" using l by simp
    then have lr: "last rs = Inl e" using f(1) run(2) by (simp add: last_conv_nth)
    then have fb: "fb = []" using run(4) f(2) by simp
    have "ev = last (paged_events ds 1 rs)"
      unfolding paged_events_last[OF run(2)] i(2) using l lr f(1) by simp
    then show ?thesis using fr i(1) lr fb new by auto
  next
    assume "ev \<in> set (map (ListDocuments ds) fb)"
    then obtain reply where r: "reply \<in> set fb" "ev = ListDocuments ds reply" by auto
    from assms(3) r(2) have re: "reply = Inl e"
      by (auto simp: listing_error_def split: sum.splits)
    from r(1) run(4) have fb: "fb = [reply]"
      by (cases fb) (auto split: if_splits)
    then show ?thesis using re new r(2) by (simp add: is_error_def)
  qed
  with run(5) show ?thesis by auto
qed

lemma upload_phase_no_listing_error: "upload_phase ds ev \<Longrightarrow> listing_error ev = None"
  by (auto simp: upload_phase_def listing_error_def split: event.splits)

lemma upload_files_trace:
  assumes "upload_files c ds files bs skip s0 = (r, s')"
  defines "s1 \<equiv> emit (Log INFO (OfUpload (UploadBegin (length files) bs skip))) s0"
  shows "\<exists>pre rest. trace s' = trace s0 @ pre @ rest
     \<and> (\<forall>ev \<in> set rest. upload_phase ds ev) \<and> (\<not> skip \<longrightarrow> pre = [])
     \<and> (skip \<longrightarrow> trace (snd (get_existing_documents c ds s1)) = trace s1 @ pre)"
proof -
  define ex where "ex = (if skip then fst (get_existing_documents c ds s1) else [])"
  define to_upload where
    "to_upload = filter (\<lambda>p. \<not> (skip \<and> path_name p \<in> fst ` set ex)) files"
  define skipped where
    "skipped = map path_str (filter (\<lambda>p. skip \<and> path_name p \<in> fst ` set ex) files)"
  define st0 where "st0 = \<lparr>total_files = length files, skipped_files = skipped,
                files_to_upload = to_upload, successful_uploads = 0, failed_uploads = []\<rparr>"
  from upload_files_run[OF assms(1)] obtain pre s4 where
    a: "trace s4 = trace s0 @ pre" "\<not> skip \<longrightarrow> pre = []"
       "skip \<longrightarrow> trace (snd (get_existing_documents c ds s1)) = trace s0 @ pre"
    and b: "if to_upload = [] then r = Inr st0 \<and> s' = emit (Log INFO (OfUpload NothingNew)) s4
          else if bs = 0 then r = Inl ValueError \<and> s' = s4
          else \<exists>successful failed s5.
                 upload_batches c ds to_upload (nat bs)
                   (if bs < 0 then [] else range_from 0 (length to_upload) (nat bs)) (0, []) s4
                   = ((successful, failed), s5)
                 \<and> r = Inr (st0\<lparr>successful_uploads := successful, failed_uploads := failed\<rparr>)
                 \<and> s' = emits (summary (st0\<lparr>successful_uploads := successful,
                                               failed_uploads := failed\<rparr>)) s5"
    unfolding s1_def ex_def to_upload_def skipped_def st0_def by blast
  have t1: "trace s1 = trace s0" by (simp add: s1_def)
  have "\<exists>rest. trace s' = trace s4 @ rest \<and> (\<forall>ev \<in> set rest. upload_phase ds ev)"
  proof (cases "to_upload = []")
    case True
    with b show ?thesis by simp
  next
    case ne: False
    show ?thesis
    proof (cases "bs = 0")
      case True
      with b ne show ?thesis by simp
    next
      case False
      with b ne obtain successful failed s5 where
        u: "upload_batches c ds to_upload (nat bs)
                   (if bs < 0 then [] else range_from 0 (length to_upload) (nat bs)) (0, []) s4
                   = ((successful, failed), s5)"
        and s': "s' = emits (summary (st0\<lparr>successful_uploads := successful,
                                               failed_uploads := failed\<rparr>)) s5"
        by (simp only: if_False) blast
      from upload_batches_run[OF u] obtain new where
        "trace s5 = trace s4 @ new" "\<forall>ev \<in> set new. upload_phase ds ev" by blast
      then show ?thesis using s' by simp
    qed
  qed
  then obtain rest where "trace s' = trace s4 @ rest" "\<forall>ev \<in> set rest. upload_phase ds ev"
    by blast
  then show ?thesis using a t1 by - (rule exI[of _ pre], rule exI[of _ rest], simp)
qed

lemma update_twice: "AList.update k v (AList.update k v m) = AList.update k v m"
  by (induction m) auto

lemma add_documents_same:
  "add_documents (replicate n (remote_doc x)) m
     = Inr (if n = 0 then m else AList.update x (remote_doc x) m)"
proof (induction n arbitrary: m)
  case 0
  show ?case by simp
next
  case (Suc n)
  have k: "doc_key (remote_doc x) = Inr x" by (simp add: doc_key_def remote_doc_def)
  show ?case unfolding replicate_Suc add_documents.simps k
    by (simp add: Suc update_twice)
qed

lemma fifty:
  "add_documents fifty m = Inr (AList.update ''a.md'' (remote_doc ''a.md'') m)"
  "length fifty = 50" "fifty \<noteq> []" "\<forall>doc \<in> set fifty. doc_id doc \<noteq> None"
proof -
  show "add_documents fifty m = Inr (AList.update ''a.md'' (remote_doc ''a.md'') m)"
    unfolding fifty_def by (simp add: add_documents_same)
  show "length fifty = 50" "fifty \<noteq> []" "\<forall>doc \<in> set fifty. doc_id doc \<noteq> None"
    unfolding fifty_def by (simp_all add: remote_doc_def)
qed

lemma endless_fetch:
  "p \<le> 1000 \<Longrightarrow>
     fst (fetch_pages endless_client kb p m s) = Inr (AList.update ''a.md'' (remote_doc ''a.md'') m)
   \<and> trace (snd (fetch_pages endless_client kb p m s))
       = trace s @ paged_events kb p (replicate (1001 - p) (Inr fifty))
   \<and> out (snd (fetch_pages endless_client kb p m s))
       = out s @ [Log WARNING (OfExisting PageLimitReached)]"
proof (induction "1000 - p" arbitrary: p m s)
  case 0
  then have p: "p = 1000" by simp
  show ?case
    unfolding p fetch_pages.simps[of endless_client kb 1000 m s]
    by (simp add: perform_def endless_client_def scripted_def fifty)
next
  case (Suc n)
  then have p: "p < 1000" "n = 1000 - Suc p" "Suc p \<le> 1000" by simp_all
  define s1 where "s1 = s\<lparr>trace := trace s @ [ListDocumentsPaged kb p 50 (Inr fifty)]\<rparr>"
  define m1 where "m1 = AList.update ''a.md'' (remote_doc ''a.md'') m"
  have step: "fetch_pages endless_client kb p m s = fetch_pages endless_client kb (Suc p) m1 s1"
    unfolding fetch_pages.simps[of endless_client kb p m s] using p(1)
    by (simp add: perform_def endless_client_def scripted_def fifty s1_def m1_def)
  have m1: "AList.update ''a.md'' (remote_doc ''a.md'') m1 = m1"
    unfolding m1_def by (rule update_twice)
  have r: "1001 - p = Suc (1001 - Suc p)" using p(1) by simp
  from Suc(1)[OF p(2) p(3), of m1 s1] show ?case
    unfolding step r m1 by (simp add: s1_def m1_def)
qed

lemma endless_listing:
  "fst (get_existing_documents endless_client kb start) = [(''a.md'', remote_doc ''a.md'')]"
  "new_events start (snd (get_existing_documents endless_client kb start))
     = paged_events kb 1 (replicate 1000 (Inr fifty))"
  "Log WARNING (OfExisting PageLimitReached)
     \<in> set (new_out start (snd (get_existing_documents endless_client kb start)))"
proof -
  define s1 where "s1 = emit (Log INFO (OfExisting ExistingBegin)) start"
  define r where "r = fetch_pages endless_client kb 1 [] s1"
  have e: "fst r = Inr [(''a.md'', remote_doc ''a.md'')]"
    "trace (snd r) = trace s1 @ paged_events kb 1 (replicate 1000 (Inr fifty))"
    "out (snd r) = out s1 @ [Log WARNING (OfExisting PageLimitReached)]"
    using endless_fetch[of 1 "[]" s1] unfolding r_def by simp_all
  obtain sr where r: "r = (Inr [(''a.md'', remote_doc ''a.md'')], sr)"
    using e(1) by (cases r) simp
  have g: "get_existing_documents endless_client kb start
      = ([(''a.md'', remote_doc ''a.md'')],
         emits [Log INFO (OfExisting (ExistingCount 1)), Log INFO (OfExisting ExistingListHeader),
                Log INFO (OfExisting (ExistingName ''a.md''))] sr)"
    unfolding get_existing_documents_def Let_def s1_def[symmetric] r_def[symmetric] r by simp
  show "fst (get_existing_documents endless_client kb start) = [(''a.md'', remote_doc ''a.md'')]"
    unfolding g by simp
  have t: "trace sr = paged_events kb 1 (replicate 1000 (Inr fifty))"
    using e(2) unfolding r by (simp add: s1_def start_def)
  show "new_events start (snd (get_existing_documents endless_client kb start))
     = paged_events kb 1 (replicate 1000 (Inr fifty))"
    unfolding g by (simp add: new_events_def start_def t)
  have "out sr = [Log INFO (OfExisting ExistingBegin), Log WARNING (OfExisting PageLimitReached)]"
    using e(3) unfolding r by (simp add: s1_def start_def)
  then show "Log WARNING (OfExisting PageLimitReached)
     \<in> set (new_out start (snd (get_existing_documents endless_client kb start)))"
    unfolding g by (simp add: new_out_def start_def)
qed

lemma fallback_listing:
  "fst (get_existing_documents fallback_client kb start)
     = [(''a.md'', remote_doc ''a.md''), (''b.md'', remote_doc ''b.md'')]"
  "new_events start (snd (get_existing_documents fallback_client kb start))
     = [ListDocumentsPaged kb 1 50 (Inr fifty), ListDocumentsPaged kb 2 50 (Inl TypeError),
        ListDocuments kb (Inr [remote_doc ''b.md''])]"
proof -
  define s1 where "s1 = emit (Log INFO (OfExisting ExistingBegin)) start"
  have k: "doc_key (remote_doc ''b.md'') = Inr ''b.md''" by (simp add: doc_key_def remote_doc_def)
  have f2: "fetch_pages fallback_client kb p m s
      = (Inr (AList.update ''b.md'' (remote_doc ''b.md'') m),
         s\<lparr>trace := trace s @ [ListDocumentsPaged kb p 50 (Inl TypeError),
                                ListDocuments kb (Inr [remote_doc ''b.md''])]\<rparr>)"
    if "p \<noteq> 1" for p m s
    unfolding fetch_pages.simps[of fallback_client kb p m s] using that
    by (simp add: perform_def fallback_client_def scripted_def k)
  define s2 where "s2 = s1\<lparr>trace := trace s1 @ [ListDocumentsPaged kb 1 50 (Inr fifty)]\<rparr>"
  have step: "fetch_pages fallback_client kb 1 [] s1
      = fetch_pages fallback_client kb 2 [(''a.md'', remote_doc ''a.md'')] s2"
    unfolding fetch_pages.simps[of fallback_client kb 1 "[]" s1]
    by (simp add: perform_def fallback_client_def[unfolded scripted_def] fifty s2_def
        numeral_2_eq_2)
  have f1: "fetch_pages fallback_client kb 1 [] s1
      = (Inr [(''a.md'', remote_doc ''a.md''), (''b.md'', remote_doc ''b.md'')],
         s1\<lparr>trace := [ListDocumentsPaged kb 1 50 (Inr fifty),
                       ListDocumentsPaged kb 2 50 (Inl TypeError),
                       ListDocuments kb (Inr [remote_doc ''b.md''])]\<rparr>)"
    unfolding step by (simp add: f2 s2_def s1_def start_def)
  show "fst (get_existing_documents fallback_client kb start)
     = [(''a.md'', remote_doc ''a.md''), (''b.md'', remote_doc ''b.md'')]"
    unfolding get_existing_documents_def Let_def s1_def[symmetric] f1 by simp
  show "new_events start (snd (get_existing_documents fallback_client kb start))
     = [ListDocumentsPaged kb 1 50 (Inr fifty), ListDocumentsPaged kb 2 50 (Inl TypeError),
        ListDocuments kb (Inr [remote_doc ''b.md''])]"
    unfolding get_existing_documents_def Let_def s1_def[symmetric] f1
    by (simp add: new_events_def start_def)
qed

lemma add_documents_no_error:
  "\<forall>doc \<in> set docs. doc_id doc \<noteq> None \<Longrightarrow> \<not> is_error (add_documents docs m)"
  by (induction docs arbitrary: m) (auto simp: is_error_def doc_key_def split: option.splits)

lemma fetch_pages_first:
  assumes "fetch_pages c ds page m s = (r, s')" and "page \<le> 1000"
  shows "\<exists>rest. trace s' = trace s
           @ ListDocumentsPaged ds page 50 (fst (list_documents_paged c ds page 50 (world s))) # rest"
proof -
  obtain reply w1 where call: "list_documents_paged c ds page 50 (world s) = (reply, w1)"
    by (metis surj_pair)
  define s1 where "s1 = s\<lparr>world := w1, trace := trace s @ [ListDocumentsPaged ds page 50 reply]\<rparr>"
  have perf: "perform (list_documents_paged c ds page 50) (ListDocumentsPaged ds page 50) s = (reply, s1)"
    by (simp add: perform_def call s1_def)
  have tr1: "trace s1 = trace s @ [ListDocumentsPaged ds page 50 reply]"
    by (simp add: s1_def)
  note run = assms(1)[unfolded fetch_pages.simps[of c ds page m s] Let_def perf, simplified]
  have "\<exists>rest. trace s' = trace s1 @ rest"
  proof (cases reply)
    case (Inl e)
    show ?thesis
    proof (cases "e = TypeError")
      case True
      obtain reply2 w2 where call2: "list_documents c ds (world s1) = (reply2, w2)"
        by (metis surj_pair)
      from run Inl True call2 have "trace s' = trace s1 @ [ListDocuments ds reply2]"
        by (auto simp: perform_def split: sum.splits)
      then show ?thesis by blast
    next
      case False
      from run Inl False have "s' = s1" by (cases e; simp)
      then show ?thesis by simp
    qed
  next
    case (Inr docs)
    show ?thesis
    proof (cases "docs = [] \<or> is_error (add_documents docs m) \<or> length docs < 50 \<or> page = 1000")
      case True
      then have "s' = (if docs \<noteq> [] \<and> \<not> is_error (add_documents docs m) \<and> \<not> length docs < 50
                       then emit (Log WARNING (OfExisting PageLimitReached)) s1 else s1)"
        using run Inr assms(2) by (auto simp: is_error_def split: sum.splits if_splits)
      then show ?thesis by simp
    next
      case False
      then obtain m' where m': "add_documents docs m = Inr m'" and ne: "docs \<noteq> []"
        and len: "\<not> length docs < 50" and pg: "page < 1000"
        using assms(2) by (cases "add_documents docs m") (auto simp: is_error_def)
      from run Inr m' ne len pg have rec: "fetch_pages c ds (page + 1) m' s1 = (r, s')"
        by simp
      have "page + 1 \<le> 1000" using pg by simp
      from fetch_pages_run[OF rec this] show ?thesis by blast
    qed
  qed
  then obtain rest where "trace s' = trace s1 @ rest" by blast
  then have "trace s' = trace s @ ListDocumentsPaged ds page 50 reply # rest"
    unfolding tr1 by simp
  then show ?thesis using call by auto
qed

lemma first_listing_call:
  assumes "get_existing_documents c ds s = (m, s')"
  shows "\<exists>rest. new_events s s'
           = ListDocumentsPaged ds 1 50 (fst (list_documents_paged c ds 1 50 (world s))) # rest"
proof -
  define s1 where "s1 = emit (Log INFO (OfExisting ExistingBegin)) s"
  obtain r s2 where f: "fetch_pages c ds 1 [] s1 = (r, s2)" by (metis surj_pair)
  from fetch_pages_first[OF f] obtain rest where
    "trace s2 = trace s1
           @ ListDocumentsPaged ds 1 50 (fst (list_documents_paged c ds 1 50 (world s1))) # rest"
    by auto
  then have t2: "trace s2 = trace s
           @ ListDocumentsPaged ds 1 50 (fst (list_documents_paged c ds 1 50 (world s))) # rest"
    by (simp add: s1_def)
  have "trace s' = trace s2"
    using assms unfolding get_existing_documents_def Let_def s1_def[symmetric] f
    by (cases r) auto
  then have "trace s' = trace s
           @ ListDocumentsPaged ds 1 50 (fst (list_documents_paged c ds 1 50 (world s))) # rest"
    using t2 by simp
  then have "new_events s s'
           = ListDocumentsPaged ds 1 50 (fst (list_documents_paged c ds 1 50 (world s))) # rest"
    by (rule new_eventsI)
  then show ?thesis by blast
qed

lemma first_call_fatal:
  assumes "get_existing_documents c ds s = (m, s')"
    and "fst (list_documents_paged c ds 1 50 (world s)) = Inl e" and "e \<noteq> TypeError"
  shows "m = [] \<and> new_events s s' = [ListDocumentsPaged ds 1 50 (Inl e)]
     \<and> last (out s') = Log ERROR (OfExisting (ExistingFailed e))"
proof -
  define s1 where "s1 = emit (Log INFO (OfExisting ExistingBegin)) s"
  obtain w1 where call: "list_documents_paged c ds 1 50 (world s1) = (Inl e, w1)"
    using assms(2) by (cases "list_documents_paged c ds 1 50 (world s)") (simp add: s1_def)
  define s2 where "s2 = s1\<lparr>world := w1, trace := trace s1 @ [ListDocumentsPaged ds 1 50 (Inl e)]\<rparr>"
  have perf: "perform (list_documents_paged c ds 1 50) (ListDocumentsPaged ds 1 50) s1 = (Inl e, s2)"
    unfolding perform_def call s2_def by simp
  have f: "fetch_pages c ds 1 [] s1 = (Inl e, s2)"
    unfolding fetch_pages.simps[of c ds 1 "[]" s1] Let_def perf using assms(3) by (cases e) simp_all
  have g: "(m, s') = ([], emit (Log ERROR (OfExisting (ExistingFailed e))) s2)"
    using assms(1) unfolding get_existing_documents_def Let_def s1_def[symmetric] f by simp
  then have m: "m = []" and s': "s' = emit (Log ERROR (OfExisting (ExistingFailed e))) s2"
    by simp_all
  have "trace s' = trace s @ [ListDocumentsPaged ds 1 50 (Inl e)]"
    unfolding s' by (simp add: s2_def s1_def)
  then have "new_events s s' = [ListDocumentsPaged ds 1 50 (Inl e)]" by (rule new_eventsI)
  moreover have "last (out s') = Log ERROR (OfExisting (ExistingFailed e))"
    unfolding s' by simp
  ultimately show ?thesis using m by simp
qed

lemma fallback_call_fatal:
  assumes "get_existing_documents c ds s = (m, s')"
    and "list_documents_paged c ds 1 50 (world s) = (Inl TypeError, w)"
    and "fst (list_documents c ds w) = Inl e"
  shows "m = [] \<and> new_events s s' = [ListDocumentsPaged ds 1 50 (Inl TypeError), ListDocuments ds (Inl e)]
     \<and> last (out s') = Log ERROR (OfExisting (ExistingFailed e))"
proof -
  define s1 where "s1 = emit (Log INFO (OfExisting ExistingBegin)) s"
  have call: "list_documents_paged c ds 1 50 (world s1) = (Inl TypeError, w)"
    using assms(2) by (simp add: s1_def)
  define s2 where "s2 = s1\<lparr>world := w, trace := trace s1 @ [ListDocumentsPaged ds 1 50 (Inl TypeError)]\<rparr>"
  have perf: "perform (list_documents_paged c ds 1 50) (ListDocumentsPaged ds 1 50) s1 = (Inl TypeError, s2)"
    unfolding perform_def call s2_def by simp
  obtain w2 where call2: "list_documents c ds (world s2) = (Inl e, w2)"
    using assms(3) by (cases "list_documents c ds w") (simp add: s2_def)
  define s3 where "s3 = s2\<lparr>world := w2, trace := trace s2 @ [ListDocuments ds (Inl e)]\<rparr>"
  have perf2: "perform (list_documents c ds) (ListDocuments ds) s2 = (Inl e, s3)"
    unfolding perform_def call2 s3_def by simp
  have f: "fetch_pages c ds 1 [] s1 = (Inl e, s3)"
    unfolding fetch_pages.simps[of c ds 1 "[]" s1] Let_def perf by (simp add: perf2)
  have g: "(m, s') = ([], emit (Log ERROR (OfExisting (ExistingFailed e))) s3)"
    using assms(1) unfolding get_existing_documents_def Let_def s1_def[symmetric] f by simp
  then have m: "m = []" and s': "s' = emit (Log ERROR (OfExisting (ExistingFailed e))) s3"
    by simp_all
  have "trace s' = trace s @ [ListDocumentsPaged ds 1 50 (Inl TypeError), ListDocuments ds (Inl e)]"
    unfolding s' by (simp add: s3_def s2_def s1_def)
  then have "new_events s s' = [ListDocumentsPaged ds 1 50 (Inl TypeError), ListDocuments ds (Inl e)]"
    by (rule new_eventsI)
  moreover have "last (out s') = Log ERROR (OfExisting (ExistingFailed e))"
    unfolding s' by simp
  ultimately show ?thesis using m by simp
qed

section \<open>Claims\<close>

text \<open>
  Claim C1. The batch size of the uploader is a positive integer. For every such batch
  size and every list of discovered files, every run of \<open>upload_files\<close> returns, and
  its statistics balance: the files that succeeded and the files that failed are together
  the files that remained after the skip filter, and those and the skipped files are
  together the files discovered.
\<close>

theorem upload_counts_balance:
  assumes "0 < batch_size"
    and "upload_files c ds file_paths batch_size skip_existing s0 = (r, s')"
  shows "\<exists>st. r = Inr st
     \<and> successful_uploads st + length (failed_uploads st) = length (files_to_upload st)
     \<and> length (files_to_upload st) + length (skipped_files st) = total_files st
     \<and> total_files st = length file_paths"
proof -
  from upload_files_pos[OF assms] obtain st new where a:
    "r = Inr st" "total_files st = length file_paths"
    "length (files_to_upload st) + length (skipped_files st) = length file_paths"
    "map fst (read_log new) = files_to_upload st"
    "successful_uploads st = succeeded_count new"
    "failed_uploads st = failed_names new"
    "succeeded_count new + length (failed_names new) = length (read_log new)"
    by blast
  have "length (read_log new) = length (files_to_upload st)"
    using a(4) by (metis length_map)
  then have "successful_uploads st + length (failed_uploads st) = length (files_to_upload st)"
    using a(5,6,7) by simp
  then show ?thesis using a(1,2,3) by simp
qed

text \<open>
  Three files in batches of two; one file is unreadable and the second upload call fails.
\<close>

theorem upload_counts_balance_witness:
  "(0::int) < 2
   \<and> fst (upload_files plain_client kb three_files 2 False start)
       = Inr \<lparr>total_files = 3, skipped_files = [], files_to_upload = three_files,
              successful_uploads = 1, failed_uploads = [''docs/bad.txt'', ''b.md'']\<rparr>
   \<and> (\<exists>st. fst (upload_files plain_client kb three_files 2 False start) = Inr st
         \<and> successful_uploads st + length (failed_uploads st) = length (files_to_upload st)
         \<and> length (files_to_upload st) + length (skipped_files st) = total_files st
         \<and> total_files st = length three_files)"
proof -
  have h: "upload_files plain_client kb three_files 2 False start
      = (fst (upload_files plain_client kb three_files 2 False start),
         snd (upload_files plain_client kb three_files 2 False start))"
    by simp
  have e: "fst (upload_files plain_client kb three_files 2 False start)
       = Inr \<lparr>total_files = 3, skipped_files = [], files_to_upload = three_files,
              successful_uploads = 1, failed_uploads = [''docs/bad.txt'', ''b.md'']\<rparr>"
    by (simp add: run_simps three_files_def)
  show ?thesis using upload_counts_balance[OF _ h] e by simp
qed

text \<open>
  Claim C2. For a positive batch size \<open>b\<close> and \<open>n > 0\<close> files left after the skip
  filter, all of them read without error, \<open>upload_files\<close> makes exactly
  \<open>ceil(n/b) = (n + b - 1) div b\<close> upload calls; the \<open>k\<close>-th call carries the files
  \<open>k*b, ..., k*b + b - 1\<close> of the list, in that order, so that the payloads put end to end
  are the whole list in its order, with the bytes that were read; no payload has more than
  \<open>b\<close> documents, and the last has \<open>n mod b\<close> of them, or \<open>b\<close> when \<open>b\<close> divides
  \<open>n\<close>.
\<close>

theorem batches_partition_files:
  assumes "0 < batch_size"
    and "upload_files c ds file_paths batch_size skip_existing s0 = (Inr st, s')"
    and "files_to_upload st \<noteq> []"
    and "read_failures (read_log (new_events s0 s')) = []"
  shows "length (upload_log (new_events s0 s'))
           = (length (files_to_upload st) + nat batch_size - 1) div nat batch_size
     \<and> map (map display_name \<circ> fst) (upload_log (new_events s0 s'))
           = map (\<lambda>k. map path_name (take (nat batch_size) (drop (k * nat batch_size) (files_to_upload st))))
               [0..<(length (files_to_upload st) + nat batch_size - 1) div nat batch_size]
     \<and> map fst (read_log (new_events s0 s')) = files_to_upload st
     \<and> concat (map fst (upload_log (new_events s0 s'))) = read_docs (read_log (new_events s0 s'))
     \<and> map display_name (concat (map fst (upload_log (new_events s0 s'))))
           = map path_name (files_to_upload st)
     \<and> (\<forall>call \<in> set (upload_log (new_events s0 s')). length (fst call) \<le> nat batch_size)
     \<and> length (fst (last (upload_log (new_events s0 s'))))
           = (if length (files_to_upload st) mod nat batch_size = 0 then nat batch_size
              else length (files_to_upload st) mod nat batch_size)"
proof -
  define b where "b = nat batch_size"
  define n where "n = length (files_to_upload st)"
  define calls where "calls = upload_log (new_events s0 s')"
  have b: "0 < b" using assms(1) by (simp add: b_def)
  have n: "0 < n" using assms(3) by (simp add: n_def)
  from upload_files_pos[OF assms(1,2)] obtain st1 pre new where a:
    "Inr st = Inr st1" "trace s' = trace s0 @ pre @ new" "\<forall>ev \<in> set pre. listing_call ds ev"
    "map fst (read_log new) = files_to_upload st1"
    "concat (map fst (upload_log new)) = read_docs (read_log new)"
    "read_failures (read_log new) = [] \<longrightarrow>
           map (map display_name \<circ> fst) (upload_log new)
             = map (\<lambda>k. map path_name (take (nat batch_size) (drop (k * nat batch_size) (files_to_upload st1))))
                 [0..<(length (files_to_upload st1) + nat batch_size - 1) div nat batch_size]"
    by blast
  have st1: "st1 = st" using a(1) by simp
  note sp = new_events_split[OF a(2,3)]
  have ok: "read_failures (read_log new) = []" using assms(4) sp(1) by simp
  have names: "map (map display_name \<circ> fst) calls
       = map (\<lambda>k. map path_name (take b (drop (k * b) (files_to_upload st)))) [0..<(n + b - 1) div b]"
    using a(6) ok sp(2) unfolding st1 calls_def b_def n_def by simp
  have len: "length calls = (n + b - 1) div b"
    using arg_cong[OF names, of length] by simp
  have each: "length (fst (calls ! k)) = min b (n - k * b)" if "k < length calls" for k
  proof -
    have "map display_name (fst (calls ! k)) = (map (map display_name \<circ> fst) calls) ! k"
      using that by simp
    also have "\<dots> = map path_name (take b (drop (k * b) (files_to_upload st)))"
      unfolding names using that len by simp
    finally have "length (map display_name (fst (calls ! k)))
        = length (map path_name (take b (drop (k * b) (files_to_upload st))))" by simp
    then show ?thesis by (simp add: n_def min.commute)
  qed
  have ne: "calls \<noteq> []" using len b n ceil_div_less[OF b, of 0 n] by auto
  have c1: "map fst (read_log (new_events s0 s')) = files_to_upload st"
    using a(4) sp(1) st1 by simp
  have c2: "concat (map fst calls) = read_docs (read_log (new_events s0 s'))"
    using a(5) sp(1,2) by (simp add: calls_def)
  have c3: "map display_name (concat (map fst calls)) = map path_name (files_to_upload st)"
    unfolding c2 using read_docs_all_ok[OF assms(4)] c1 by simp
  have c4: "\<forall>call \<in> set calls. length (fst call) \<le> b"
  proof
    fix call assume "call \<in> set calls"
    then obtain k where "k < length calls" "call = calls ! k" by (metis in_set_conv_nth)
    then show "length (fst call) \<le> b" using each by simp
  qed
  have c5: "length (fst (last calls)) = (if n mod b = 0 then b else n mod b)"
  proof -
    have "last calls = calls ! (length calls - 1)" using ne by (simp add: last_conv_nth)
    then have "length (fst (last calls)) = min b (n - (length calls - 1) * b)"
      using each[of "length calls - 1"] ne by simp
    then show ?thesis using last_chunk_length[OF b n] len by simp
  qed
  show ?thesis
    using len names c1 c2 c3 c4 c5 unfolding calls_def b_def n_def by blast
qed

text \<open>
  Seven readable files in batches of five: two upload calls, of five and of two files.
\<close>

theorem batches_partition_files_witness:
  "(0::int) < 5
   \<and> fst (upload_files steady_client kb seven_files 5 False start)
       = Inr \<lparr>total_files = 7, skipped_files = [], files_to_upload = seven_files,
              successful_uploads = 7, failed_uploads = []\<rparr>
   \<and> seven_files \<noteq> []
   \<and> read_failures (read_log (new_events start
         (snd (upload_files steady_client kb seven_files 5 False start)))) = []
   \<and> length (upload_log (new_events start
         (snd (upload_files steady_client kb seven_files 5 False start)))) = (7 + 5 - 1) div 5
   \<and> map (map display_name \<circ> fst) (upload_log (new_events start
         (snd (upload_files steady_client kb seven_files 5 False start))))
       = [[''f1.md'', ''f2.md'', ''f3.md'', ''f4.md'', ''f5.md''], [''f6.md'', ''f7.md'']]
   \<and> length (fst (last (upload_log (new_events start
         (snd (upload_files steady_client kb seven_files 5 False start)))))) = 7 mod 5"
proof -
  define run where "run = upload_files steady_client kb seven_files 5 False start"
  define st where "st = \<lparr>total_files = 7, skipped_files = [], files_to_upload = seven_files,
              successful_uploads = 7, failed_uploads = []\<rparr>"
  have e: "fst run = Inr st"
    by (simp add: run_def st_def run_simps steady_client_def seven_files_def)
  have h: "upload_files steady_client kb seven_files 5 False start = (Inr st, snd run)"
    using e by (simp add: run_def prod_eq_iff)
  have ne: "files_to_upload st \<noteq> []" by (simp add: st_def seven_files_def)
  have ok: "read_failures (read_log (new_events start (snd run))) = []"
    by (simp add: run_def run_simps steady_client_def seven_files_def observe_simps)
  have sz: "length (files_to_upload st) = 7" by (simp add: st_def seven_files_def)
  have nm: "map (\<lambda>k. map path_name (take (nat 5) (drop (k * nat 5) (files_to_upload st)))) [0..<(7 + nat 5 - 1) div nat 5]
      = [[''f1.md'', ''f2.md'', ''f3.md'', ''f4.md'', ''f5.md''], [''f6.md'', ''f7.md'']]"
    by (simp add: st_def seven_files_def path_name_def upt_rec)
  show ?thesis
    using batches_partition_files[OF _ h ne ok] e ok ne nm
    unfolding run_def[symmetric] sz by (simp add: st_def)
qed

text \<open>
  Claim C3. With a positive batch size: every file left after the skip filter is read, in
  order, whatever happened to the batches before it, so every batch is attempted; the
  files counted as succeeded are those of the upload calls that returned, and the files of
  every upload call that raised are recorded as failed (by display name, after the read
  failures of their batch). In particular, when every file is readable and exactly one
  of the upload calls raises, there is one call per batch, the failed files are the files
  of that call, and all the other files are counted as succeeded.
\<close>

theorem failed_batch_is_isolated:
  assumes "0 < batch_size"
    and "upload_files c ds file_paths batch_size skip_existing s0 = (Inr st, s')"
  shows "map fst (read_log (new_events s0 s')) = files_to_upload st
     \<and> concat (map fst (upload_log (new_events s0 s'))) = read_docs (read_log (new_events s0 s'))
     \<and> successful_uploads st
          = sum_list (map (\<lambda>(docs, r). if is_error r then 0 else length docs)
                        (upload_log (new_events s0 s')))
     \<and> failed_uploads st = failed_names (new_events s0 s')
     \<and> (read_failures (read_log (new_events s0 s')) = [] \<longrightarrow>
           length (upload_log (new_events s0 s'))
             = (length (files_to_upload st) + nat batch_size - 1) div nat batch_size
         \<and> failed_uploads st
             = concat (map (\<lambda>(docs, r). if is_error r then map display_name docs else [])
                         (upload_log (new_events s0 s'))))
     \<and> (\<forall>j. read_failures (read_log (new_events s0 s')) = []
             \<and> j < length (upload_log (new_events s0 s'))
             \<and> is_error (snd (upload_log (new_events s0 s') ! j))
             \<and> (\<forall>i < length (upload_log (new_events s0 s')).
                   i \<noteq> j \<longrightarrow> \<not> is_error (snd (upload_log (new_events s0 s') ! i)))
           \<longrightarrow> failed_uploads st = map display_name (fst (upload_log (new_events s0 s') ! j))
               \<and> successful_uploads st + length (fst (upload_log (new_events s0 s') ! j))
                   = length (files_to_upload st))"
proof -
  define calls where "calls = upload_log (new_events s0 s')"
  define reads where "reads = read_log (new_events s0 s')"
  from upload_files_pos[OF assms] obtain st1 pre new where a:
    "Inr st = Inr st1" "trace s' = trace s0 @ pre @ new" "\<forall>ev \<in> set pre. listing_call ds ev"
    "map fst (read_log new) = files_to_upload st1"
    "concat (map fst (upload_log new)) = read_docs (read_log new)"
    "successful_uploads st1 = succeeded_count new"
    "failed_uploads st1 = failed_names new"
    "read_failures (read_log new) = [] \<longrightarrow>
           map (map display_name \<circ> fst) (upload_log new)
             = map (\<lambda>k. map path_name (take (nat batch_size) (drop (k * nat batch_size) (files_to_upload st1))))
                 [0..<(length (files_to_upload st1) + nat batch_size - 1) div nat batch_size]"
    by blast
  have st1: "st1 = st" using a(1) by simp
  note sp = new_events_split[OF a(2,3)]
  have c1: "map fst reads = files_to_upload st" using a(4) sp(1) st1 by (simp add: reads_def)
  have c2: "concat (map fst calls) = read_docs reads"
    using a(5) sp(1,2) by (simp add: calls_def reads_def)
  have c3: "successful_uploads st
          = sum_list (map (\<lambda>(docs, r). if is_error r then 0 else length docs) calls)"
    using a(6) sp(3) st1 succeeded_count_upload_log[of "new_events s0 s'"] by (simp add: calls_def)
  have c4: "failed_uploads st = failed_names (new_events s0 s')" using a(7) sp(4) st1 by simp
  have c5: "length calls = (length (files_to_upload st) + nat batch_size - 1) div nat batch_size"
    and c6: "failed_uploads st
             = concat (map (\<lambda>(docs, r). if is_error r then map display_name docs else []) calls)"
    if ok: "read_failures reads = []"
  proof -
    have "read_failures (read_log new) = []" using ok sp(1) by (simp add: reads_def)
    with a(8) have "map (map display_name \<circ> fst) calls
             = map (\<lambda>k. map path_name (take (nat batch_size) (drop (k * nat batch_size) (files_to_upload st))))
                 [0..<(length (files_to_upload st) + nat batch_size - 1) div nat batch_size]"
      using sp(2) st1 by (simp add: calls_def)
    from arg_cong[OF this, of length]
    show "length calls = (length (files_to_upload st) + nat batch_size - 1) div nat batch_size"
      by simp
    show "failed_uploads st
             = concat (map (\<lambda>(docs, r). if is_error r then map display_name docs else []) calls)"
      unfolding c4 calls_def using failed_names_upload_log ok by (simp add: reads_def)
  qed
  have c7: "failed_uploads st = map display_name (fst (calls ! j))
               \<and> successful_uploads st + length (fst (calls ! j)) = length (files_to_upload st)"
    if ok: "read_failures reads = []" and j: "j < length calls" "is_error (snd (calls ! j))"
      "\<forall>i < length calls. i \<noteq> j \<longrightarrow> \<not> is_error (snd (calls ! i))" for j
  proof -
    have "length (concat (map fst calls)) = length (files_to_upload st)"
      unfolding c2 using read_docs_failures_length[of reads] ok c1 by (metis add.right_neutral length_map list.size(3))
    then show ?thesis using one_failure_totals[OF j] c3 c6[OF ok] by simp
  qed
  show ?thesis
    using c1 c2 c3 c4 c5 c6 c7 unfolding calls_def reads_def by blast
qed

text \<open>
  Seven readable files in batches of three; the second of the three upload calls fails.
\<close>

theorem failed_batch_is_isolated_witness:
  "(0::int) < 3
   \<and> fst (upload_files plain_client kb seven_files 3 False start)
       = Inr \<lparr>total_files = 7, skipped_files = [], files_to_upload = seven_files,
              successful_uploads = 4, failed_uploads = [''f4.md'', ''f5.md'', ''f6.md'']\<rparr>
   \<and> map fst (read_log (new_events start
         (snd (upload_files plain_client kb seven_files 3 False start)))) = seven_files
   \<and> map (\<lambda>(docs, r). (map display_name docs, is_error r)) (upload_log (new_events start
         (snd (upload_files plain_client kb seven_files 3 False start))))
       = [([''f1.md'', ''f2.md'', ''f3.md''], False), ([''f4.md'', ''f5.md'', ''f6.md''], True),
          ([''f7.md''], False)]"
proof -
  define run where "run = upload_files plain_client kb seven_files 3 False start"
  define st where "st = \<lparr>total_files = 7, skipped_files = [], files_to_upload = seven_files,
              successful_uploads = 4, failed_uploads = [''f4.md'', ''f5.md'', ''f6.md'']\<rparr>"
  have e: "fst run = Inr st"
    by (simp add: run_def st_def run_simps seven_files_def)
  have h: "upload_files plain_client kb seven_files 3 False start = (Inr st, snd run)"
    using e by (simp add: run_def prod_eq_iff)
  have calls: "map (\<lambda>(docs, r). (map display_name docs, is_error r)) (upload_log (new_events start (snd run)))
       = [([''f1.md'', ''f2.md'', ''f3.md''], False), ([''f4.md'', ''f5.md'', ''f6.md''], True),
          ([''f7.md''], False)]"
    by (simp add: run_def run_simps seven_files_def observe_simps)
  show ?thesis
    using failed_batch_is_isolated[OF _ h] e calls
    unfolding run_def[symmetric] by (simp add: st_def)
qed

text \<open>
  Claim C4. With \<open>skip_existing\<close> set, a file is skipped exactly when its base name is a
  key of the mapping that \<open>get_existing_documents\<close> returned: the skipped files are the
  files with such a name (recorded by path), the files to upload are the others, in the
  order of the input; nothing but the base name is looked at, and no skipped file is read
  or uploaded. Without \<open>skip_existing\<close> nothing is skipped.
\<close>

theorem skip_filter_by_name:
  assumes "upload_files c ds file_paths batch_size skip_existing s0 = (Inr st, s')"
    and "get_existing_documents c ds
           (emit (Log INFO (OfUpload (UploadBegin (length file_paths) batch_size skip_existing))) s0)
         = (existing_docs, s2)"
  shows "(skip_existing \<longrightarrow>
            files_to_upload st = filter (\<lambda>p. path_name p \<notin> fst ` set existing_docs) file_paths
          \<and> skipped_files st
              = map path_str (filter (\<lambda>p. path_name p \<in> fst ` set existing_docs) file_paths)
          \<and> (\<forall>p \<in> set (map fst (read_log (new_events s0 s'))).
                path_name p \<notin> fst ` set existing_docs)
          \<and> (\<forall>doc \<in> set (concat (map fst (upload_log (new_events s0 s')))).
                display_name doc \<notin> fst ` set existing_docs))
     \<and> (\<not> skip_existing \<longrightarrow> files_to_upload st = file_paths \<and> skipped_files st = [])
     \<and> set (map fst (read_log (new_events s0 s'))) \<subseteq> set (files_to_upload st)
     \<and> set (map display_name (concat (map fst (upload_log (new_events s0 s')))))
          \<subseteq> path_name ` set (files_to_upload st)"
proof -
  note a = upload_files_any[OF assms(1)]
  note a1 = a[THEN conjunct1] and a2 = a[THEN conjunct2, THEN conjunct1]
    and a3 = a[THEN conjunct2, THEN conjunct2, THEN conjunct1]
    and a4 = a[THEN conjunct2, THEN conjunct2, THEN conjunct2]
  have rd: "set (map fst (read_log (new_events s0 s'))) \<subseteq> set (files_to_upload st)"
    by (rule a3)
  have "set (map display_name (read_docs (read_log (new_events s0 s'))))
          \<subseteq> path_name ` set (map fst (read_log (new_events s0 s')))"
    by (rule read_docs_names)
  then have up: "set (map display_name (concat (map fst (upload_log (new_events s0 s')))))
          \<subseteq> path_name ` set (files_to_upload st)"
    unfolding a4 using rd by blast
  show ?thesis
  proof (cases skip_existing)
    case True
    have f1: "files_to_upload st = filter (\<lambda>p. path_name p \<notin> fst ` set existing_docs) file_paths"
      using a1 True assms(2) by simp
    have f2: "skipped_files st
              = map path_str (filter (\<lambda>p. path_name p \<in> fst ` set existing_docs) file_paths)"
      using a2 True assms(2) by simp
    have nk: "\<forall>p \<in> set (files_to_upload st). path_name p \<notin> fst ` set existing_docs"
      unfolding f1 by simp
    have r1: "\<forall>p \<in> set (map fst (read_log (new_events s0 s'))).
                path_name p \<notin> fst ` set existing_docs"
      using rd nk by blast
    have up': "display_name ` set (concat (map fst (upload_log (new_events s0 s'))))
          \<subseteq> path_name ` set (files_to_upload st)"
      using up by simp
    have r2: "\<forall>doc \<in> set (concat (map fst (upload_log (new_events s0 s')))).
                display_name doc \<notin> fst ` set existing_docs"
    proof
      fix doc assume "doc \<in> set (concat (map fst (upload_log (new_events s0 s'))))"
      then have "display_name doc \<in> path_name ` set (files_to_upload st)" using up' by blast
      then obtain p where "p \<in> set (files_to_upload st)" "display_name doc = path_name p" by blast
      then show "display_name doc \<notin> fst ` set existing_docs" using nk by simp
    qed
    from True f1 f2 r1 r2 rd up show ?thesis by blast
  next
    case False
    have "files_to_upload st = file_paths" using a1 False by simp
    moreover have "skipped_files st = []" using a2 False by simp
    ultimately show ?thesis using False rd up by blast
  qed
qed

text \<open>
  Two files named \<open>a.md\<close>, in different directories, and one named \<open>b.md\<close>; the
  dataset holds a document named \<open>a.md\<close>. Both \<open>a.md\<close> are skipped, \<open>b.md\<close> is
  read and uploaded.
\<close>

theorem skip_filter_by_name_witness:
  "fst (upload_files plain_client kb
          [[''docs'', ''a.md''], [''other'', ''a.md''], [''docs'', ''b.md'']] 5 True start)
     = Inr \<lparr>total_files = 3, skipped_files = [''docs/a.md'', ''other/a.md''],
            files_to_upload = [[''docs'', ''b.md'']],
            successful_uploads = 1, failed_uploads = []\<rparr>
   \<and> fst (get_existing_documents plain_client kb
          (emit (Log INFO (OfUpload (UploadBegin 3 5 True))) start))
     = [(''a.md'', remote_doc ''a.md'')]
   \<and> map fst (read_log (new_events start (snd (upload_files plain_client kb
          [[''docs'', ''a.md''], [''other'', ''a.md''], [''docs'', ''b.md'']] 5 True start))))
     = [[''docs'', ''b.md'']]
   \<and> map display_name (concat (map fst (upload_log (new_events start (snd (upload_files
          plain_client kb [[''docs'', ''a.md''], [''other'', ''a.md''], [''docs'', ''b.md'']]
          5 True start))))))
     = [''b.md'']"
proof -
  define files where "files = [[''docs'', ''a.md''], [''other'', ''a.md''], [''docs'', ''b.md'']]"
  define run where "run = upload_files plain_client kb files 5 True start"
  define st where "st = \<lparr>total_files = 3, skipped_files = [''docs/a.md'', ''other/a.md''],
            files_to_upload = [[''docs'', ''b.md'']],
            successful_uploads = 1, failed_uploads = []\<rparr>"
  define found where "found = get_existing_documents plain_client kb
          (emit (Log INFO (OfUpload (UploadBegin (length files) 5 True))) start)"
  have e: "fst run = Inr st"
    by (simp add: run_def st_def files_def run_simps)
  have h: "upload_files plain_client kb files 5 True start = (Inr st, snd run)"
    using e by (simp add: run_def prod_eq_iff)
  have g: "get_existing_documents plain_client kb
          (emit (Log INFO (OfUpload (UploadBegin (length files) 5 True))) start)
         = ([(''a.md'', remote_doc ''a.md'')], snd found)"
    by (simp add: found_def files_def run_simps prod_eq_iff)
  have rd: "map fst (read_log (new_events start (snd run))) = [[''docs'', ''b.md'']]"
    by (simp add: run_def files_def run_simps observe_simps)
  have up: "map display_name (concat (map fst (upload_log (new_events start (snd run))))) = [''b.md'']"
    by (simp add: run_def files_def run_simps observe_simps)
  have l: "length files = 3" by (simp add: files_def)
  show ?thesis
    using skip_filter_by_name[OF h g] e g rd up
    unfolding run_def[symmetric] l files_def[symmetric] by (simp add: st_def)
qed

text \<open>
  Claim C6, amended. When no file is left after the skip filter, \<open>upload_files\<close> reads
  no file and makes no upload call; it logs that there is nothing new to upload and
  returns at once (line 297), so the summary of lines 361-393 is neither logged nor
  printed. At that point nothing has succeeded or failed, and every discovered file is
  counted as skipped.
\<close>

theorem nothing_to_upload_returns_early:
  assumes "upload_files c ds file_paths batch_size skip_existing s0 = (Inr st, s')"
    and "files_to_upload st = []"
  shows "read_log (new_events s0 s') = [] \<and> upload_log (new_events s0 s') = []
     \<and> successful_uploads st = 0 \<and> failed_uploads st = []
     \<and> total_files st = length file_paths \<and> length (skipped_files st) = total_files st
     \<and> last (out s') = Log INFO (OfUpload NothingNew)
     \<and> (\<forall>x \<in> set (new_out s0 s'). \<not> is_summary x)"
proof -
  define ex where "ex = (if skip_existing then fst (get_existing_documents c ds
      (emit (Log INFO (OfUpload (UploadBegin (length file_paths) batch_size skip_existing))) s0)) else [])"
  define to_upload where
    "to_upload = filter (\<lambda>p. \<not> (skip_existing \<and> path_name p \<in> fst ` set ex)) file_paths"
  define skipped where
    "skipped = map path_str (filter (\<lambda>p. skip_existing \<and> path_name p \<in> fst ` set ex) file_paths)"
  define st0 where "st0 = \<lparr>total_files = length file_paths, skipped_files = skipped,
                files_to_upload = to_upload, successful_uploads = 0, failed_uploads = []\<rparr>"
  define r where "r = (Inr st :: exn + upload_stats)"
  have run: "upload_files c ds file_paths batch_size skip_existing s0 = (r, s')"
    using assms(1) by (simp add: r_def)
  have tu: "to_upload = []"
    using upload_files_any[OF assms(1), THEN conjunct1] assms(2)
    by (simp add: to_upload_def ex_def)
  from upload_files_run[OF run] obtain pre s4 lines where
    a: "trace s4 = trace s0 @ pre" "\<forall>ev \<in> set pre. listing_call ds ev"
       "out s4 = out s0 @ lines" "\<forall>x \<in> set lines. \<not> is_summary x"
    and b: "if to_upload = [] then r = Inr st0 \<and> s' = emit (Log INFO (OfUpload NothingNew)) s4
          else if batch_size = 0 then r = Inl ValueError \<and> s' = s4
          else \<exists>successful failed s5.
                 upload_batches c ds to_upload (nat batch_size)
                   (if batch_size < 0 then [] else range_from 0 (length to_upload) (nat batch_size)) (0, []) s4
                   = ((successful, failed), s5)
                 \<and> r = Inr (st0\<lparr>successful_uploads := successful, failed_uploads := failed\<rparr>)
                 \<and> s' = emits (summary (st0\<lparr>successful_uploads := successful,
                                               failed_uploads := failed\<rparr>)) s5"
    unfolding ex_def to_upload_def skipped_def st0_def by blast
  from b tu have st: "st = st0" and s': "s' = emit (Log INFO (OfUpload NothingNew)) s4"
    by (simp_all add: r_def)
  have tr: "trace s' = trace s0 @ pre @ []" using s' a(1) by simp
  note sp = new_events_split[OF tr a(2)]
  have o: "out s' = out s0 @ (lines @ [Log INFO (OfUpload NothingNew)])" using s' a(3) by simp
  have no: "new_out s0 s' = lines @ [Log INFO (OfUpload NothingNew)]" by (rule new_outI[OF o])
  have len: "length skipped = length file_paths"
    using sum_length_filter_compl[of "\<lambda>p. skip_existing \<and> path_name p \<in> fst ` set ex" file_paths] tu
    by (simp add: skipped_def to_upload_def)
  show ?thesis
  proof (intro conjI)
    show "read_log (new_events s0 s') = []" using sp(1) by simp
    show "upload_log (new_events s0 s') = []" using sp(2) by simp
    show "successful_uploads st = 0" "failed_uploads st = []" "total_files st = length file_paths"
      by (simp_all add: st st0_def)
    show "length (skipped_files st) = total_files st" using len by (simp add: st st0_def)
    show "last (out s') = Log INFO (OfUpload NothingNew)" unfolding o by simp
    show "\<forall>x \<in> set (new_out s0 s'). \<not> is_summary x"
      unfolding no using a(4) by (simp add: is_summary_def)
  qed
qed

text \<open>
  One file, already in the dataset, with \<open>skip_existing\<close>: nothing is left to upload.
\<close>

theorem nothing_to_upload_returns_early_witness:
  "fst (upload_files plain_client kb [[''docs'', ''a.md'']] 5 True start)
     = Inr \<lparr>total_files = 1, skipped_files = [''docs/a.md''], files_to_upload = [],
            successful_uploads = 0, failed_uploads = []\<rparr>
   \<and> upload_log (new_events start
         (snd (upload_files plain_client kb [[''docs'', ''a.md'']] 5 True start))) = []
   \<and> last (out (snd (upload_files plain_client kb [[''docs'', ''a.md'']] 5 True start)))
       = Log INFO (OfUpload NothingNew)"
proof -
  define run where "run = upload_files plain_client kb [[''docs'', ''a.md'']] 5 True start"
  define st where "st = \<lparr>total_files = 1, skipped_files = [''docs/a.md''], files_to_upload = [],
            successful_uploads = 0, failed_uploads = []\<rparr>"
  have e: "fst run = Inr st" by (simp add: run_def st_def run_simps)
  have h: "upload_files plain_client kb [[''docs'', ''a.md'']] 5 True start = (Inr st, snd run)"
    using e by (simp add: run_def prod_eq_iff)
  have z: "files_to_upload st = []" by (simp add: st_def)
  show ?thesis
    using nothing_to_upload_returns_early[OF h z] e
    unfolding run_def[symmetric] by (simp add: st_def)
qed

text \<open>
  Claim C6 as stated fails: in the run above the output ends with the notice of line 296;
  no line of the summary is logged or printed, and the statistics are not all zero.
\<close>

theorem nothing_to_upload_returns_early_counterexample:
  "fst (upload_files plain_client kb [[''docs'', ''a.md'']] 5 True start)
     = Inr \<lparr>total_files = 1, skipped_files = [''docs/a.md''], files_to_upload = [],
            successful_uploads = 0, failed_uploads = []\<rparr>
   \<and> out (snd (upload_files plain_client kb [[''docs'', ''a.md'']] 5 True start))
     = [Log INFO (OfUpload (UploadBegin 1 5 True)),
        Log INFO (OfExisting ExistingBegin),
        Log INFO (OfExisting (ExistingCount 1)),
        Log INFO (OfExisting ExistingListHeader),
        Log INFO (OfExisting (ExistingName ''a.md'')),
        Log INFO (OfUpload (ExistingFound 1)),
        Log INFO (OfUpload (SkipFile ''a.md'')),
        Log INFO (OfUpload (SkipCount 1 0)),
        Log INFO (OfUpload NothingNew)]
   \<and> Print (OfSummary UploadDone)
       \<notin> set (out (snd (upload_files plain_client kb [[''docs'', ''a.md'']] 5 True start)))
   \<and> Log INFO (OfSummary (SummaryTotal 1))
       \<notin> set (out (snd (upload_files plain_client kb [[''docs'', ''a.md'']] 5 True start)))"
  by (simp add: run_simps)

text \<open>
  Claim C10. When the lookup call raises, \<open>get_or_create_dataset\<close> logs the error and goes
  on to the creation call, made with chunk method \<open>naive\<close> and permission \<open>me\<close>; what
  the creation call gives is what the function gives. The function raises only if the
  creation call was made and raised, with that exception. In \<open>main\<close>, the run then ends
  with exit code 1 and that error, right after the failed creation; in every other case
  the run goes on from the resolution of the collection to the check of the directory.
\<close>

theorem lookup_failure_still_creates:
  assumes "get_or_create_dataset c name s = (r, s')"
    and "main c a s0 = (code, sf)"
  shows "(\<forall>e. fst (list_datasets c name (world s)) = Inl e \<longrightarrow>
            new_events s s' = [ListDatasets name (Inl e),
                               CreateDataset name (description_prefix @ name) ''naive'' ''me'' r]
          \<and> Log ERROR (OfDataset (DatasetLookupError e)) \<in> set (new_out s s'))
     \<and> (is_error r \<longrightarrow>
           (\<exists>found. new_events s s'
              = [ListDatasets name found,
                 CreateDataset name (description_prefix @ name) ''naive'' ''me'' r]))
     \<and> (\<exists>found.
           (\<exists>b rest. new_events s0 sf
              = ListDatasets (arg_dataset_name a) found # PathExists (arg_directory a) b # rest)
         \<or> (\<exists>d b rest. new_events s0 sf
              = ListDatasets (arg_dataset_name a) found
                # CreateDataset (arg_dataset_name a) (description_prefix @ arg_dataset_name a)
                    ''naive'' ''me'' (Inr d)
                # PathExists (arg_directory a) b # rest)
         \<or> (\<exists>e. new_events s0 sf
              = [ListDatasets (arg_dataset_name a) found,
                 CreateDataset (arg_dataset_name a) (description_prefix @ arg_dataset_name a)
                   ''naive'' ''me'' (Inl e)]
              \<and> code = 1 \<and> last (out sf) = Print (OfMain (RunError e))))"
proof -
  note res = get_or_create_dataset_run[OF assms(1)]
  have p1: "\<forall>e. fst (list_datasets c name (world s)) = Inl e \<longrightarrow>
            new_events s s' = [ListDatasets name (Inl e),
                               CreateDataset name (description_prefix @ name) ''naive'' ''me'' r]
          \<and> Log ERROR (OfDataset (DatasetLookupError e)) \<in> set (new_out s s')"
  proof (intro allI impI)
    fix e assume e: "fst (list_datasets c name (world s)) = Inl e"
    with res have "trace s' = trace s @ [ListDatasets name (Inl e),
                  CreateDataset name (description_prefix @ name) ''naive'' ''me'' r]"
      "Log ERROR (OfDataset (DatasetLookupError e)) \<in> set (new_out s s')"
      by auto
    then show "new_events s s' = [ListDatasets name (Inl e),
                               CreateDataset name (description_prefix @ name) ''naive'' ''me'' r]
          \<and> Log ERROR (OfDataset (DatasetLookupError e)) \<in> set (new_out s s')"
      using new_eventsI by blast
  qed
  have p2: "is_error r \<longrightarrow>
           (\<exists>found. new_events s s'
              = [ListDatasets name found,
                 CreateDataset name (description_prefix @ name) ''naive'' ''me'' r])"
  proof
    assume "is_error r"
    with res obtain found where "trace s' = trace s @ [ListDatasets name found,
                  CreateDataset name (description_prefix @ name) ''naive'' ''me'' r]"
      by (auto simp: is_error_def)
    then show "\<exists>found. new_events s s'
              = [ListDatasets name found,
                 CreateDataset name (description_prefix @ name) ''naive'' ''me'' r]"
      using new_eventsI by blast
  qed
  define nm where "nm = arg_dataset_name a"
  define dir where "dir = arg_directory a"
  define s1 where "s1 = emits (startup_lines a) s0"
  have t1: "trace s1 = trace s0" by (simp add: s1_def)
  from main_run[OF assms(2)] obtain rr s2 where
    g: "get_or_create_dataset c nm s1 = (rr, s2)"
    and m: "case rr of
           Inl e \<Rightarrow> code = 1 \<and> trace sf = trace s2 \<and> last (out sf) = Print (OfMain (RunError e))
         | Inr d \<Rightarrow>
             (\<exists>fr s3. get_files_from_directory c dir s2 = (fr, s3)
                \<and> (case fr of
                      Inl e \<Rightarrow> code = 1 \<and> trace sf = trace s3
                                \<and> last (out sf) = Print (OfMain (RunError e))
                    | Inr files \<Rightarrow> (\<exists>more. trace sf = trace s3 @ more)))"
    unfolding nm_def dir_def s1_def by blast
  note resm = get_or_create_dataset_run[OF g]
  have p3: "\<exists>found.
           (\<exists>b rest. new_events s0 sf = ListDatasets nm found # PathExists dir b # rest)
         \<or> (\<exists>d b rest. new_events s0 sf
              = ListDatasets nm found
                # CreateDataset nm (description_prefix @ nm) ''naive'' ''me'' (Inr d)
                # PathExists dir b # rest)
         \<or> (\<exists>e. new_events s0 sf
              = [ListDatasets nm found,
                 CreateDataset nm (description_prefix @ nm) ''naive'' ''me'' (Inl e)]
              \<and> code = 1 \<and> last (out sf) = Print (OfMain (RunError e)))"
  proof (cases rr)
    case (Inl e)
    with m have c: "code = 1" "trace sf = trace s2" "last (out sf) = Print (OfMain (RunError e))"
      by simp_all
    from resm Inl obtain found where
      "trace s2 = trace s1 @ [ListDatasets nm found,
                  CreateDataset nm (description_prefix @ nm) ''naive'' ''me'' (Inl e)]"
      by auto
    then have "new_events s0 sf = [ListDatasets nm found,
                  CreateDataset nm (description_prefix @ nm) ''naive'' ''me'' (Inl e)]"
      using c(2) t1 by (intro new_eventsI) simp
    then show ?thesis using c(1,3) by blast
  next
    case (Inr d)
    with m obtain fr s3 where f: "get_files_from_directory c dir s2 = (fr, s3)"
      and m2: "case fr of
                      Inl e \<Rightarrow> code = 1 \<and> trace sf = trace s3
                                \<and> last (out sf) = Print (OfMain (RunError e))
                    | Inr files \<Rightarrow> (\<exists>more. trace sf = trace s3 @ more)"
      by auto
    from get_files_from_directory_run[OF f] obtain b rest where
      t3: "trace s3 = trace s2 @ PathExists dir b # rest" by blast
    from m2 obtain more where t4: "trace sf = trace s3 @ more"
      by (cases fr) auto
    from resm Inr have "(\<exists>found. trace s2 = trace s1 @ [ListDatasets nm found])
        \<or> (\<exists>found. trace s2 = trace s1 @ [ListDatasets nm found,
                  CreateDataset nm (description_prefix @ nm) ''naive'' ''me'' (Inr d)])"
      by auto
    then show ?thesis
    proof (elim disjE exE)
      fix found assume "trace s2 = trace s1 @ [ListDatasets nm found]"
      then have "new_events s0 sf = ListDatasets nm found # PathExists dir b # (rest @ more)"
        using t4 t3 t1 by (intro new_eventsI) simp
      then show ?thesis by blast
    next
      fix found assume "trace s2 = trace s1 @ [ListDatasets nm found,
                  CreateDataset nm (description_prefix @ nm) ''naive'' ''me'' (Inr d)]"
      then have "new_events s0 sf = ListDatasets nm found
                # CreateDataset nm (description_prefix @ nm) ''naive'' ''me'' (Inr d)
                # PathExists dir b # (rest @ more)"
        using t4 t3 t1 by (intro new_eventsI) simp
      then show ?thesis by blast
    qed
  qed
  from p1 p2 p3 show ?thesis unfolding nm_def dir_def by blast
qed

text \<open>
  A service whose lookup raises but whose creation works: the collection is created. A
  service where both raise: \<open>main\<close> ends with exit code 1 after the two calls.
\<close>

theorem lookup_failure_still_creates_witness:
  "fst (get_or_create_dataset lookup_down_client ''kb'' start) = Inr kb
   \<and> new_events start (snd (get_or_create_dataset lookup_down_client ''kb'' start))
       = [ListDatasets ''kb'' (Inl (OtherError ''down'')),
          CreateDataset ''kb'' (description_prefix @ ''kb'') ''naive'' ''me'' (Inr kb)]
   \<and> fst (get_or_create_dataset create_down_client ''kb'' start) = Inl (OtherError ''refused'')
   \<and> fst (main create_down_client demo_args start) = 1
   \<and> new_events start (snd (main create_down_client demo_args start))
       = [ListDatasets ''kb'' (Inl (OtherError ''down'')),
          CreateDataset ''kb'' (description_prefix @ ''kb'') ''naive'' ''me''
            (Inl (OtherError ''refused''))]
   \<and> last (out (snd (main create_down_client demo_args start)))
       = Print (OfMain (RunError (OtherError ''refused'')))"
proof -
  have g1: "get_or_create_dataset lookup_down_client ''kb'' start
     = (Inr kb, snd (get_or_create_dataset lookup_down_client ''kb'' start))"
    by (simp add: main_simps run_simps prod_eq_iff)
  have m1: "main lookup_down_client demo_args start
       = (fst (main lookup_down_client demo_args start), snd (main lookup_down_client demo_args start))"
    by simp
  have l1: "fst (list_datasets lookup_down_client ''kb'' (world start)) = Inl (OtherError ''down'')"
    by (simp add: lookup_down_client_def scripted_def)
  have g2: "get_or_create_dataset create_down_client ''kb'' start
     = (Inl (OtherError ''refused''), snd (get_or_create_dataset create_down_client ''kb'' start))"
    by (simp add: main_simps run_simps create_down_client_def prod_eq_iff)
  have m2: "main create_down_client demo_args start
       = (fst (main create_down_client demo_args start), snd (main create_down_client demo_args start))"
    by simp
  have tr: "new_events start (snd (main create_down_client demo_args start))
       = [ListDatasets ''kb'' (Inl (OtherError ''down'')),
          CreateDataset ''kb'' (description_prefix @ ''kb'') ''naive'' ''me''
            (Inl (OtherError ''refused''))]"
    by (simp add: main_simps run_simps create_down_client_def)
  have f1: "fst (get_or_create_dataset lookup_down_client ''kb'' start) = Inr kb"
    using g1 by (metis fst_conv)
  have f2: "fst (get_or_create_dataset create_down_client ''kb'' start) = Inl (OtherError ''refused'')"
    using g2 by (metis fst_conv)
  show ?thesis
    using lookup_failure_still_creates[OF g1 m1] lookup_failure_still_creates[OF g2 m2] f1 f2 l1 tr
    by (simp add: demo_args_def)
qed

text \<open>
  Claim C9. In a run of \<open>upload_files\<close> with a positive batch size \<open>b\<close>, the files left
  after the skip filter are all read, in order, and the reads and upload calls of the
  run are, batch after batch, the reads of the \<open>b\<close> files of the batch (fewer in the last
  one) followed by at most one upload call: a file whose read raises does not stop the
  reads of its batch nor those of the later batches, it is left out of the payload, and
  the payload of the batch is made of the files of the batch that were read, in order,
  with their bytes; the call is made exactly when this payload is not empty. The
  unreadable files are recorded as failed by their path; when no upload call raises they
  are the only failed files and every other file is counted as succeeded.
\<close>

theorem unreadable_file_leaves_batch:
  assumes "0 < batch_size"
    and "upload_files c ds file_paths batch_size skip_existing s0 = (Inr st, s')"
  shows "map fst (read_log (new_events s0 s')) = files_to_upload st
     \<and> upload_steps (new_events s0 s')
         = concat (map (\<lambda>k. batch_steps (take (nat batch_size) (drop (k * nat batch_size)
                                (read_log (new_events s0 s')))))
             [0..<(length (files_to_upload st) + nat batch_size - 1) div nat batch_size])
     \<and> map fst (upload_log (new_events s0 s'))
         = filter (\<lambda>docs. docs \<noteq> [])
             (map (\<lambda>k. read_docs (take (nat batch_size) (drop (k * nat batch_size)
                                (read_log (new_events s0 s')))))
                [0..<(length (files_to_upload st) + nat batch_size - 1) div nat batch_size])
     \<and> failed_uploads st = failed_names (new_events s0 s')
     \<and> set (read_failures (read_log (new_events s0 s'))) \<subseteq> set (failed_uploads st)
     \<and> successful_uploads st
          = sum_list (map (\<lambda>(docs, r). if is_error r then 0 else length docs)
                        (upload_log (new_events s0 s')))
     \<and> ((\<forall>call \<in> set (upload_log (new_events s0 s')). \<not> is_error (snd call)) \<longrightarrow>
           failed_uploads st = read_failures (read_log (new_events s0 s'))
         \<and> successful_uploads st = length (read_docs (read_log (new_events s0 s')))
         \<and> successful_uploads st + length (read_failures (read_log (new_events s0 s')))
             = length (files_to_upload st))"
proof -
  define new where "new = new_events s0 s'"
  define b where "b = nat batch_size"
  define nb where "nb = (length (files_to_upload st) + b - 1) div b"
  from upload_files_pos[OF assms] obtain st1 pre body where a:
    "Inr st = Inr st1" "trace s' = trace s0 @ pre @ body" "\<forall>ev \<in> set pre. listing_call ds ev"
    "map fst (read_log body) = files_to_upload st1"
    "concat (map fst (upload_log body)) = read_docs (read_log body)"
    "successful_uploads st1 = succeeded_count body"
    "failed_uploads st1 = failed_names body"
    by blast
  have st1: "st1 = st" using a(1) by simp
  note sp = new_events_split[OF a(2,3)]
  have c1: "map fst (read_log new) = files_to_upload st"
    using a(4) sp(1) st1 by (simp add: new_def)
  have ln: "length (read_log new) = length (files_to_upload st)"
    using arg_cong[OF c1, of length] by simp
  have c2: "upload_steps new
         = concat (map (\<lambda>k. batch_steps (take b (drop (k * b) (read_log new)))) [0..<nb])"
    using upload_files_steps[OF assms] unfolding new_def[symmetric] ln b_def[symmetric] nb_def .
  have "map fst (upload_log new)
      = concat (map (\<lambda>step. case step of Inl pr \<Rightarrow> [] | Inr docs \<Rightarrow> [docs])
          (concat (map batch_steps (map (\<lambda>k. take b (drop (k * b) (read_log new))) [0..<nb]))))"
    unfolding upload_steps_payloads c2 by (simp add: o_def)
  also have "\<dots> = filter (\<lambda>docs. docs \<noteq> [])
       (map read_docs (map (\<lambda>k. take b (drop (k * b) (read_log new))) [0..<nb]))"
    by (rule batch_payloads)
  finally have c3: "map fst (upload_log new)
       = filter (\<lambda>docs. docs \<noteq> [])
           (map (\<lambda>k. read_docs (take b (drop (k * b) (read_log new)))) [0..<nb])"
    by (simp add: o_def)
  have c4: "failed_uploads st = failed_names new" using a(7) sp(4) st1 by (simp add: new_def)
  have c5: "set (read_failures (read_log new)) \<subseteq> set (failed_uploads st)"
    unfolding c4 by (rule read_failures_recorded)
  have sc: "successful_uploads st = succeeded_count new"
    using a(6) sp(3) st1 by (simp add: new_def)
  have c6: "successful_uploads st
          = sum_list (map (\<lambda>(docs, r). if is_error r then 0 else length docs) (upload_log new))"
    unfolding sc by (rule succeeded_count_upload_log)
  have pay: "concat (map fst (upload_log new)) = read_docs (read_log new)"
    using a(5) sp(1,2) by (simp add: new_def)
  have c7: "failed_uploads st = read_failures (read_log new)
         \<and> successful_uploads st = length (read_docs (read_log new))
         \<and> successful_uploads st + length (read_failures (read_log new))
             = length (files_to_upload st)"
    if ok: "\<forall>call \<in> set (upload_log new). \<not> is_error (snd call)"
  proof -
    have f: "failed_uploads st = read_failures (read_log new)"
      unfolding c4 using ok by (rule no_upload_error_names)
    have s: "successful_uploads st = length (read_docs (read_log new))"
      unfolding c6 no_upload_error_count[OF ok] pay ..
    show ?thesis using f s read_docs_failures_length[of "read_log new"] ln by simp
  qed
  show ?thesis
    using c1 c2 c3 c4 c5 c6 c7 unfolding new_def b_def nb_def by blast
qed

text \<open>
  Three files in batches of two, the second file unreadable: it is read, recorded as
  failed and left out; the first file is uploaded alone by the call of the first batch,
  and the second batch is read and uploaded as usual.
\<close>

theorem unreadable_file_leaves_batch_witness:
  "(0::int) < 2
   \<and> fst (upload_files unreadable_client kb three_files 2 False start)
       = Inr \<lparr>total_files = 3, skipped_files = [], files_to_upload = three_files,
              successful_uploads = 2, failed_uploads = [''docs/bad.txt'']\<rparr>
   \<and> upload_steps (new_events start (snd (upload_files unreadable_client kb three_files 2 False start)))
       = [Inl ([''docs'', ''a.md''], Inr ''x''),
          Inl ([''docs'', ''bad.txt''], Inl (OtherError ''denied'')),
          Inr [\<lparr>display_name = ''a.md'', blob = ''x''\<rparr>],
          Inl ([''docs'', ''b.md''], Inr ''x''),
          Inr [\<lparr>display_name = ''b.md'', blob = ''x''\<rparr>]]
   \<and> map fst (upload_log (new_events start
         (snd (upload_files unreadable_client kb three_files 2 False start))))
       = [[\<lparr>display_name = ''a.md'', blob = ''x''\<rparr>], [\<lparr>display_name = ''b.md'', blob = ''x''\<rparr>]]
   \<and> read_failures (read_log (new_events start
         (snd (upload_files unreadable_client kb three_files 2 False start))))
       = [''docs/bad.txt'']"
proof -
  define run where "run = upload_files unreadable_client kb three_files 2 False start"
  define st where "st = \<lparr>total_files = 3, skipped_files = [], files_to_upload = three_files,
              successful_uploads = 2, failed_uploads = [''docs/bad.txt'']\<rparr>"
  have e: "fst run = Inr st"
    by (simp add: run_def st_def run_simps unreadable_client_def three_files_def)
  have h: "upload_files unreadable_client kb three_files 2 False start = (Inr st, snd run)"
    using e by (simp add: run_def prod_eq_iff)
  have tr: "new_events start (snd run)
      = [ReadBytes [''docs'', ''a.md''] (Inr ''x''),
         ReadBytes [''docs'', ''bad.txt''] (Inl (OtherError ''denied'')),
         UploadDocuments kb [\<lparr>display_name = ''a.md'', blob = ''x''\<rparr>] (Inr ()),
         ReadBytes [''docs'', ''b.md''] (Inr ''x''),
         UploadDocuments kb [\<lparr>display_name = ''b.md'', blob = ''x''\<rparr>] (Inr ())]"
    by (simp add: run_def run_simps unreadable_client_def three_files_def)
  have steps: "upload_steps (new_events start (snd run))
       = [Inl ([''docs'', ''a.md''], Inr ''x''),
          Inl ([''docs'', ''bad.txt''], Inl (OtherError ''denied'')),
          Inr [\<lparr>display_name = ''a.md'', blob = ''x''\<rparr>],
          Inl ([''docs'', ''b.md''], Inr ''x''),
          Inr [\<lparr>display_name = ''b.md'', blob = ''x''\<rparr>]]"
    unfolding tr by (simp add: upload_steps_def)
  have calls: "upload_log (new_events start (snd run))
       = [([\<lparr>display_name = ''a.md'', blob = ''x''\<rparr>], Inr ()),
          ([\<lparr>display_name = ''b.md'', blob = ''x''\<rparr>], Inr ())]"
    unfolding tr by (simp add: upload_log_def)
  have ok: "\<forall>call \<in> set (upload_log (new_events start (snd run))). \<not> is_error (snd call)"
    unfolding calls by (simp add: is_error_def)
  have rf: "read_failures (read_log (new_events start (snd run))) = [''docs/bad.txt'']"
    unfolding tr by (simp add: read_log_def read_failures_def)
  show ?thesis
    using unreadable_file_leaves_batch[OF _ h] e steps calls ok rf
    unfolding run_def[symmetric] by (simp add: st_def)
qed

text \<open>
  Claim C5, amended. When the source directory does not exist, the run ends with exit
  code 1 and makes no document listing, no upload, no parse trigger, no scan and no read.
  But \<open>main\<close> resolves the collection first (line 517 comes before line 520): the lookup
  call is always made, with the reply of the service. When the lookup finds the
  collection, no creation call is made: the existence check of the directory follows at
  once and the run ends with the not-found error. When the lookup raises or finds
  nothing, the creation call is made: if it returns, the existence check follows and the
  run ends with the not-found error; if it raises, the run ends with that error, before
  the directory is looked at.
\<close>

theorem missing_directory_aborts_after_resolution:
  assumes "\<forall>w. fst (path_exists c (arg_directory a) w) = False"
    and "main c a s0 = (code, s')"
  shows "code = 1
     \<and> hd (new_events s0 s')
         = ListDatasets (arg_dataset_name a) (fst (list_datasets c (arg_dataset_name a) (world s0)))
     \<and> ((\<exists>d ds. new_events s0 s' = [ListDatasets (arg_dataset_name a) (Inr (d # ds)),
                                      PathExists (arg_directory a) False]
                 \<and> last (out s') = Print (OfMain (RunError (FileNotFoundError (arg_directory a)))))
         \<or> (\<exists>found d. (is_error found \<or> found = Inr [])
                 \<and> new_events s0 s'
                      = [ListDatasets (arg_dataset_name a) found,
                         CreateDataset (arg_dataset_name a) (description_prefix @ arg_dataset_name a)
                           ''naive'' ''me'' (Inr d),
                         PathExists (arg_directory a) False]
                 \<and> last (out s') = Print (OfMain (RunError (FileNotFoundError (arg_directory a)))))
         \<or> (\<exists>found e. (is_error found \<or> found = Inr [])
                 \<and> new_events s0 s'
                      = [ListDatasets (arg_dataset_name a) found,
                         CreateDataset (arg_dataset_name a) (description_prefix @ arg_dataset_name a)
                           ''naive'' ''me'' (Inl e)]
                 \<and> last (out s') = Print (OfMain (RunError e))))"
proof -
  define name where "name = arg_dataset_name a"
  define dir where "dir = arg_directory a"
  define s1 where "s1 = emits (startup_lines a) s0"
  define looked where "looked = fst (list_datasets c name (world s0))"
  have t1: "trace s1 = trace s0" and w1: "world s1 = world s0" by (simp_all add: s1_def)
  from main_run[OF assms(2)] obtain rr s2 where
    g: "get_or_create_dataset c name s1 = (rr, s2)"
    and m: "case rr of
           Inl e \<Rightarrow> code = 1 \<and> trace s' = trace s2 \<and> last (out s') = Print (OfMain (RunError e))
         | Inr d \<Rightarrow>
             (\<exists>fr s3. get_files_from_directory c dir s2 = (fr, s3)
                \<and> (case fr of
                      Inl e \<Rightarrow> code = 1 \<and> trace s' = trace s3
                                \<and> last (out s') = Print (OfMain (RunError e))
                    | Inr files \<Rightarrow> (\<exists>more. trace s' = trace s3 @ more)))"
    unfolding name_def dir_def s1_def by blast
  from get_or_create_dataset_run[OF g]
  have res: "(\<exists>d ds. looked = Inr (d # ds) \<and> rr = Inr d
            \<and> trace s2 = trace s1 @ [ListDatasets name (Inr (d # ds))])
       \<or> ((\<forall>d ds. looked \<noteq> Inr (d # ds))
            \<and> trace s2 = trace s1 @ [ListDatasets name looked,
                  CreateDataset name (description_prefix @ name) ''naive'' ''me'' rr])"
    unfolding looked_def w1 by (elim disjE exE conjE) simp_all
  have not_found: "is_error looked \<or> looked = Inr []" if "\<forall>d ds. looked \<noteq> Inr (d # ds)"
  proof (cases looked)
    case (Inl e)
    then show ?thesis by (simp add: is_error_def)
  next
    case (Inr found)
    with that show ?thesis by (cases found) simp_all
  qed
  have absent: "fr = Inl (FileNotFoundError dir) \<and> trace s3 = trace s2 @ [PathExists dir False]"
    if "get_files_from_directory c dir s2 = (fr, s3)" for fr s3
    using get_files_from_directory_run[OF that] assms(1) by (auto simp: dir_def)
  let ?A = "\<exists>d ds. new_events s0 s' = [ListDatasets name (Inr (d # ds)), PathExists dir False]
                 \<and> last (out s') = Print (OfMain (RunError (FileNotFoundError dir)))"
  let ?B = "\<exists>found d. (is_error found \<or> found = Inr [])
                 \<and> new_events s0 s'
                      = [ListDatasets name found,
                         CreateDataset name (description_prefix @ name) ''naive'' ''me'' (Inr d),
                         PathExists dir False]
                 \<and> last (out s') = Print (OfMain (RunError (FileNotFoundError dir)))"
  let ?C = "\<exists>found e. (is_error found \<or> found = Inr [])
                 \<and> new_events s0 s'
                      = [ListDatasets name found,
                         CreateDataset name (description_prefix @ name) ''naive'' ''me'' (Inl e)]
                 \<and> last (out s') = Print (OfMain (RunError e))"
  have shape: "code = 1 \<and> hd (new_events s0 s') = ListDatasets name looked \<and> (?A \<or> ?B \<or> ?C)"
    using res
  proof (elim disjE exE conjE)
    fix d ds assume l: "looked = Inr (d # ds)" and rr: "rr = Inr d"
      and t2: "trace s2 = trace s1 @ [ListDatasets name (Inr (d # ds))]"
    from m obtain fr s3 where f: "get_files_from_directory c dir s2 = (fr, s3)"
      and m2: "case fr of
                      Inl e \<Rightarrow> code = 1 \<and> trace s' = trace s3
                                \<and> last (out s') = Print (OfMain (RunError e))
                    | Inr files \<Rightarrow> (\<exists>more. trace s' = trace s3 @ more)"
      unfolding rr by (simp only: sum.case) blast
    note ab = absent[OF f]
    from m2 have c: "code = 1" "trace s' = trace s3"
      "last (out s') = Print (OfMain (RunError (FileNotFoundError dir)))"
      unfolding conjunct1[OF ab] by simp_all
    have "trace s' = trace s0 @ [ListDatasets name (Inr (d # ds)), PathExists dir False]"
      unfolding c(2) conjunct2[OF ab] t2 t1 by simp
    then have ne: "new_events s0 s' = [ListDatasets name (Inr (d # ds)), PathExists dir False]"
      by (rule new_eventsI)
    have "?A" using ne c(3) by - (rule exI[of _ d], rule exI[of _ ds], simp)
    then have d: "?A \<or> ?B \<or> ?C" by (rule disjI1)
    have h: "hd (new_events s0 s') = ListDatasets name looked" unfolding ne l by simp
    show ?thesis by (rule conjI[OF c(1) conjI[OF h d]])
  next
    assume l: "\<forall>d ds. looked \<noteq> Inr (d # ds)"
      and t2: "trace s2 = trace s1 @ [ListDatasets name looked,
                  CreateDataset name (description_prefix @ name) ''naive'' ''me'' rr]"
    have nl: "is_error looked \<or> looked = Inr []" by (rule not_found[OF l])
    show ?thesis
    proof (cases rr)
      case (Inl e)
      from m have c: "code = 1" "trace s' = trace s2" "last (out s') = Print (OfMain (RunError e))"
        unfolding Inl by simp_all
      have "trace s' = trace s0 @ [ListDatasets name looked,
                  CreateDataset name (description_prefix @ name) ''naive'' ''me'' (Inl e)]"
        unfolding c(2) t2 t1 Inl by simp
      then have ne: "new_events s0 s' = [ListDatasets name looked,
                  CreateDataset name (description_prefix @ name) ''naive'' ''me'' (Inl e)]"
        by (rule new_eventsI)
      have "?C" by (intro exI[of _ looked] exI[of _ e] conjI nl ne c(3))
      then have d: "?A \<or> ?B \<or> ?C" by (intro disjI2)
      have h: "hd (new_events s0 s') = ListDatasets name looked" unfolding ne by simp
      show ?thesis by (rule conjI[OF c(1) conjI[OF h d]])
    next
      case (Inr d)
      from m obtain fr s3 where f: "get_files_from_directory c dir s2 = (fr, s3)"
        and m2: "case fr of
                      Inl e \<Rightarrow> code = 1 \<and> trace s' = trace s3
                                \<and> last (out s') = Print (OfMain (RunError e))
                    | Inr files \<Rightarrow> (\<exists>more. trace s' = trace s3 @ more)"
        unfolding Inr by (simp only: sum.case) blast
      note ab = absent[OF f]
      from m2 have c: "code = 1" "trace s' = trace s3"
        "last (out s') = Print (OfMain (RunError (FileNotFoundError dir)))"
        unfolding conjunct1[OF ab] by simp_all
      have "trace s' = trace s0 @ [ListDatasets name looked,
                  CreateDataset name (description_prefix @ name) ''naive'' ''me'' (Inr d),
                  PathExists dir False]"
        unfolding c(2) conjunct2[OF ab] t2 t1 Inr by simp
      then have ne: "new_events s0 s' = [ListDatasets name looked,
                  CreateDataset name (description_prefix @ name) ''naive'' ''me'' (Inr d),
                  PathExists dir False]"
        by (rule new_eventsI)
      have "?B" by (intro exI[of _ looked] exI[of _ d] conjI nl ne c(3))
      then have d: "?A \<or> ?B \<or> ?C" by (intro disjI2 disjI1)
      have h: "hd (new_events s0 s') = ListDatasets name looked" unfolding ne by simp
      show ?thesis by (rule conjI[OF c(1) conjI[OF h d]])
    qed
  qed
  then show ?thesis unfolding name_def dir_def looked_def .
qed

text \<open>
  A run on a directory that does not exist, against a service that does not know the
  collection: the collection is looked up and created, then the run aborts.
\<close>

theorem missing_directory_aborts_after_resolution_witness:
  "fst (path_exists no_dir_client (arg_directory demo_args) 0) = False
   \<and> fst (main no_dir_client demo_args start) = 1
   \<and> new_events start (snd (main no_dir_client demo_args start))
       = [ListDatasets ''kb'' (Inr []),
          CreateDataset ''kb'' (description_prefix @ ''kb'') ''naive'' ''me'' (Inr kb),
          PathExists [''missing''] False]
   \<and> last (out (snd (main no_dir_client demo_args start)))
       = Print (OfMain (RunError (FileNotFoundError [''missing''])))"
proof -
  have h: "main no_dir_client demo_args start
       = (fst (main no_dir_client demo_args start), snd (main no_dir_client demo_args start))"
    by simp
  have p: "\<forall>w. fst (path_exists no_dir_client (arg_directory demo_args) w) = False"
    by (simp add: no_dir_client_def scripted_def)
  have tr: "new_events start (snd (main no_dir_client demo_args start))
       = [ListDatasets ''kb'' (Inr []),
          CreateDataset ''kb'' (description_prefix @ ''kb'') ''naive'' ''me'' (Inr kb),
          PathExists [''missing''] False]"
    by (simp add: main_simps run_simps)
  show ?thesis
    using missing_directory_aborts_after_resolution[OF p h] p tr
    by (simp add: demo_args_def)
qed

text \<open>
  Claim C5 as stated fails on that run: before it aborts, the program has looked the
  collection up and created it on the remote service.
\<close>

theorem missing_directory_aborts_after_resolution_counterexample:
  "fst (main no_dir_client demo_args start) = 1
   \<and> trace (snd (main no_dir_client demo_args start))
       = [ListDatasets ''kb'' (Inr []),
          CreateDataset ''kb'' (description_prefix @ ''kb'') ''naive'' ''me'' (Inr kb),
          PathExists [''missing''] False]"
  by (simp add: main_simps run_simps)

text \<open>
  Claim C8. An unrecoverable error of the listing calls (an exception of a paginated
  call other than \<open>TypeError\<close>, or any exception of the unpaginated call) ends the
  reconciliation there: it is the last call of \<open>get_existing_documents\<close>, which logs it
  and returns the empty mapping, not the exception. So it is when the service raises on
  the first paginated call, or raises \<open>TypeError\<close> there and then raises on the
  unpaginated call: these are then the only calls made. The caller \<open>upload_files\<close>, when
  its reconciliation met such an error, skips nothing and goes on with every file: with
  a positive batch size every file is read for upload.
\<close>

theorem listing_failure_gives_empty_inventory:
  assumes "get_existing_documents c ds s = (existing_docs, s')"
    and "upload_files c ds file_paths batch_size skip_existing s0 = (Inr st, sf)"
  shows "(\<forall>ev e. ev \<in> set (new_events s s') \<and> listing_error ev = Some e \<longrightarrow>
            existing_docs = [] \<and> ev = last (new_events s s')
          \<and> last (out s') = Log ERROR (OfExisting (ExistingFailed e)))
     \<and> (\<forall>e. fst (list_documents_paged c ds 1 50 (world s)) = Inl e \<and> e \<noteq> TypeError \<longrightarrow>
            existing_docs = [] \<and> new_events s s' = [ListDocumentsPaged ds 1 50 (Inl e)]
          \<and> last (out s') = Log ERROR (OfExisting (ExistingFailed e)))
     \<and> (\<forall>e. fst (list_documents_paged c ds 1 50 (world s)) = Inl TypeError
             \<and> fst (list_documents c ds (snd (list_documents_paged c ds 1 50 (world s)))) = Inl e \<longrightarrow>
            existing_docs = []
          \<and> new_events s s' = [ListDocumentsPaged ds 1 50 (Inl TypeError), ListDocuments ds (Inl e)]
          \<and> last (out s') = Log ERROR (OfExisting (ExistingFailed e)))
     \<and> (\<forall>ev e. ev \<in> set (new_events s0 sf) \<and> listing_error ev = Some e \<longrightarrow>
            files_to_upload st = file_paths \<and> skipped_files st = []
          \<and> (0 < batch_size \<longrightarrow> map fst (read_log (new_events s0 sf)) = file_paths))"
proof -
  have p1: "\<forall>ev e. ev \<in> set (new_events s s') \<and> listing_error ev = Some e \<longrightarrow>
            existing_docs = [] \<and> ev = last (new_events s s')
          \<and> last (out s') = Log ERROR (OfExisting (ExistingFailed e))"
    using inventory_empty_on_error[OF assms(1)] by blast
  have p2: "\<forall>e. fst (list_documents_paged c ds 1 50 (world s)) = Inl e \<and> e \<noteq> TypeError \<longrightarrow>
            existing_docs = [] \<and> new_events s s' = [ListDocumentsPaged ds 1 50 (Inl e)]
          \<and> last (out s') = Log ERROR (OfExisting (ExistingFailed e))"
    using first_call_fatal[OF assms(1)] by blast
  have p3: "\<forall>e. fst (list_documents_paged c ds 1 50 (world s)) = Inl TypeError
             \<and> fst (list_documents c ds (snd (list_documents_paged c ds 1 50 (world s)))) = Inl e \<longrightarrow>
            existing_docs = []
          \<and> new_events s s' = [ListDocumentsPaged ds 1 50 (Inl TypeError), ListDocuments ds (Inl e)]
          \<and> last (out s') = Log ERROR (OfExisting (ExistingFailed e))"
  proof (intro allI impI, elim conjE)
    fix e
    assume a: "fst (list_documents_paged c ds 1 50 (world s)) = Inl TypeError"
      and b: "fst (list_documents c ds (snd (list_documents_paged c ds 1 50 (world s)))) = Inl e"
    have "list_documents_paged c ds 1 50 (world s)
        = (Inl TypeError, snd (list_documents_paged c ds 1 50 (world s)))"
      using a by (simp add: prod_eq_iff)
    from fallback_call_fatal[OF assms(1) this b]
    show "existing_docs = []
          \<and> new_events s s' = [ListDocumentsPaged ds 1 50 (Inl TypeError), ListDocuments ds (Inl e)]
          \<and> last (out s') = Log ERROR (OfExisting (ExistingFailed e))" .
  qed
  have p4: "\<forall>ev e. ev \<in> set (new_events s0 sf) \<and> listing_error ev = Some e \<longrightarrow>
            files_to_upload st = file_paths \<and> skipped_files st = []
          \<and> (0 < batch_size \<longrightarrow> map fst (read_log (new_events s0 sf)) = file_paths)"
  proof (intro allI impI, elim conjE)
    fix ev e
    assume ev: "ev \<in> set (new_events s0 sf)" and le: "listing_error ev = Some e"
    define s1 where "s1 = emit (Log INFO (OfUpload (UploadBegin (length file_paths) batch_size skip_existing))) s0"
    from upload_files_trace[OF assms(2)] obtain pre rest where
      t: "trace sf = trace s0 @ pre @ rest" "\<forall>ev \<in> set rest. upload_phase ds ev"
         "\<not> skip_existing \<longrightarrow> pre = []"
         "skip_existing \<longrightarrow> trace (snd (get_existing_documents c ds s1)) = trace s1 @ pre"
      unfolding s1_def by blast
    have "new_events s0 sf = pre @ rest" using t(1) by (rule new_eventsI)
    with ev have "ev \<in> set pre \<or> ev \<in> set rest" by auto
    moreover have "ev \<notin> set rest"
      using t(2) le upload_phase_no_listing_error by fastforce
    ultimately have in_pre: "ev \<in> set pre" by simp
    then have skip: skip_existing using t(3) by auto
    obtain m sg where g: "get_existing_documents c ds s1 = (m, sg)" by (metis surj_pair)
    have "trace sg = trace s1 @ pre" using t(4) skip g by simp
    then have "new_events s1 sg = pre" by (rule new_eventsI)
    with in_pre have "ev \<in> set (new_events s1 sg)" by simp
    from inventory_empty_on_error[OF g this le] have "m = []" by simp
    then have ex: "fst (get_existing_documents c ds s1) = []" using g by simp
    note any = upload_files_any[OF assms(2)]
    have f: "files_to_upload st = file_paths"
      using any[THEN conjunct1] ex skip unfolding s1_def[symmetric] by simp
    have k: "skipped_files st = []"
      using any[THEN conjunct2, THEN conjunct1] ex skip unfolding s1_def[symmetric] by simp
    have r: "map fst (read_log (new_events s0 sf)) = file_paths" if pos: "0 < batch_size"
    proof -
      from upload_files_pos[OF pos assms(2)] obtain st1 pre' body where a:
        "Inr st = Inr st1" "trace sf = trace s0 @ pre' @ body"
        "\<forall>ev \<in> set pre'. listing_call ds ev"
        "map fst (read_log body) = files_to_upload st1"
        by blast
      have "st1 = st" using a(1) by simp
      then show ?thesis using new_events_split(1)[OF a(2,3)] a(4) f by simp
    qed
    show "files_to_upload st = file_paths \<and> skipped_files st = []
          \<and> (0 < batch_size \<longrightarrow> map fst (read_log (new_events s0 sf)) = file_paths)"
      using f k r by blast
  qed
  show ?thesis using p1 p2 p3 p4 by (intro conjI)
qed

text \<open>
  A service whose paginated listing raises an error that is not \<open>TypeError\<close>.
\<close>

theorem listing_failure_gives_empty_inventory_witness:
  "fst (list_documents_paged listing_down_client kb 1 50 (world start)) = Inl (OtherError ''503'')
   \<and> fst (get_existing_documents listing_down_client kb start) = []
   \<and> new_events start (snd (get_existing_documents listing_down_client kb start))
       = [ListDocumentsPaged kb 1 50 (Inl (OtherError ''503''))]
   \<and> listing_error (ListDocumentsPaged kb 1 50 (Inl (OtherError ''503''))) = Some (OtherError ''503'')
   \<and> last (out (snd (get_existing_documents listing_down_client kb start)))
       = Log ERROR (OfExisting (ExistingFailed (OtherError ''503'')))
   \<and> fst (upload_files listing_down_client kb [[''docs'', ''a.md'']] 5 True start)
       = Inr \<lparr>total_files = 1, skipped_files = [], files_to_upload = [[''docs'', ''a.md'']],
              successful_uploads = 1, failed_uploads = []\<rparr>
   \<and> ListDocumentsPaged kb 1 50 (Inl (OtherError ''503''))
       \<in> set (new_events start (snd (upload_files listing_down_client kb [[''docs'', ''a.md'']] 5 True start)))
   \<and> map fst (read_log (new_events start
         (snd (upload_files listing_down_client kb [[''docs'', ''a.md'']] 5 True start))))
       = [[''docs'', ''a.md'']]"
proof -
  define ev where "ev = ListDocumentsPaged kb 1 50 (Inl (OtherError ''503''))"
  define g where "g = get_existing_documents listing_down_client kb start"
  define u where "u = upload_files listing_down_client kb [[''docs'', ''a.md'']] 5 True start"
  define st where "st = \<lparr>total_files = 1, skipped_files = [], files_to_upload = [[''docs'', ''a.md'']],
              successful_uploads = 1, failed_uploads = []\<rparr>"
  have h1: "get_existing_documents listing_down_client kb start = (fst g, snd g)"
    by (simp add: g_def)
  have c1: "fst (list_documents_paged listing_down_client kb 1 50 (world start)) = Inl (OtherError ''503'')"
    by (simp add: listing_down_client_def scripted_def)
  have le: "listing_error ev = Some (OtherError ''503'')"
    by (simp add: ev_def listing_error_def)
  have fu: "fst u = Inr st"
    by (simp add: u_def st_def run_simps listing_down_client_def)
  have h2: "upload_files listing_down_client kb [[''docs'', ''a.md'']] 5 True start = (Inr st, snd u)"
    using fu by (simp add: u_def prod_eq_iff)
  have n2: "ev \<in> set (new_events start (snd u))"
    by (simp add: u_def ev_def run_simps listing_down_client_def)
  note t = listing_failure_gives_empty_inventory[OF h1 h2]
  have a: "fst g = [] \<and> new_events start (snd g) = [ev]
       \<and> last (out (snd g)) = Log ERROR (OfExisting (ExistingFailed (OtherError ''503'')))"
    using t[THEN conjunct2, THEN conjunct1] c1 unfolding ev_def by simp
  have b: "files_to_upload st = [[''docs'', ''a.md'']] \<and> skipped_files st = []
       \<and> map fst (read_log (new_events start (snd u))) = [[''docs'', ''a.md'']]"
    using t[THEN conjunct2, THEN conjunct2, THEN conjunct2] n2 le by auto
  show ?thesis
    using a b c1 le fu n2
    unfolding g_def[symmetric] u_def[symmetric] ev_def[symmetric] by (simp add: st_def)
qed

text \<open>
  Claim C7. \<open>get_existing_documents\<close> asks for pages \<open>1, 2, 3, ...\<close> of size 50, starting
  with page 1 whatever the service holds, a page being asked for only after a page of at
  least 50 documents, and for at most 1000 pages.
  When the thousandth page is such a page too, the loop stops there with a warning and
  the mapping built from all the pages is returned. When a paginated call raises
  \<open>TypeError\<close>, it is the last paginated call: one unpaginated call follows, and nothing
  after it. Unless a call raised an unrecoverable error, the mapping returned is the one
  built, in order, from the documents of all the pages and of the unpaginated call (it is
  empty when a document has no \<open>id\<close>, which makes line 148 or 160 raise).
\<close>

theorem paging_is_bounded_with_fallback:
  assumes "get_existing_documents c ds s = (existing_docs, s')"
  shows "paged_log (new_events s s') \<noteq> [] \<and> length (paged_log (new_events s s')) \<le> 1000
     \<and> hd (paged_log (new_events s s')) = (1, 50, fst (list_documents_paged c ds 1 50 (world s)))
     \<and> map (\<lambda>(page, page_size, reply). (page, page_size)) (paged_log (new_events s s'))
          = map (\<lambda>page. (page, 50)) [1..<Suc (length (paged_log (new_events s s')))]
     \<and> (\<forall>reply \<in> set (butlast (map (snd \<circ> snd) (paged_log (new_events s s')))). full_page reply)
     \<and> (full_page (last (map (snd \<circ> snd) (paged_log (new_events s s'))))
          \<and> \<not> is_error (add_documents (concat (map reply_docs
                 (map (snd \<circ> snd) (paged_log (new_events s s')) @ unpaged_log (new_events s s')))) [])
         \<longrightarrow> length (paged_log (new_events s s')) = 1000
             \<and> Log WARNING (OfExisting PageLimitReached) \<in> set (new_out s s'))
     \<and> new_events s s'
          = map (\<lambda>(page, page_size, reply). ListDocumentsPaged ds page page_size reply)
              (paged_log (new_events s s'))
            @ map (ListDocuments ds) (unpaged_log (new_events s s'))
     \<and> (if last (map (snd \<circ> snd) (paged_log (new_events s s'))) = Inl TypeError
         then length (unpaged_log (new_events s s')) = 1
         else unpaged_log (new_events s s') = [])
     \<and> ((\<forall>ev \<in> set (new_events s s'). listing_error ev = None) \<longrightarrow>
           existing_docs
             = (case add_documents (concat (map reply_docs
                      (map (snd \<circ> snd) (paged_log (new_events s s')) @ unpaged_log (new_events s s')))) [] of
                  Inr found \<Rightarrow> found
                | Inl e \<Rightarrow> []))"
proof -
  from get_existing_documents_run[OF assms] obtain rs fb xs where run:
    "trace s' = trace s @ paged_events ds 1 rs @ map (ListDocuments ds) fb"
    "rs \<noteq> []" "length rs \<le> 1000"
    "\<forall>reply \<in> set (butlast rs). full_page reply"
    "if last rs = Inl TypeError then length fb = 1 else fb = []"
    "if (\<exists>reply \<in> set rs. fatal_reply reply) \<or> (\<exists>reply \<in> set fb. is_error reply)
         then existing_docs = [] \<and> (\<exists>e. last (rs @ fb) = Inl e \<and> last (out s') = Log ERROR (OfExisting (ExistingFailed e)))
         else existing_docs = (case add_documents (concat (map reply_docs (rs @ fb))) [] of
                     Inr found \<Rightarrow> found | Inl e \<Rightarrow> [])"
    "out s' = out s @ xs"
    "length rs = 1000 \<and> full_page (last rs)
          \<and> \<not> is_error (add_documents (concat (map reply_docs (rs @ fb))) [])
         \<longrightarrow> Log WARNING (OfExisting PageLimitReached) \<in> set xs"
    "full_page (last rs)
          \<and> \<not> is_error (add_documents (concat (map reply_docs (rs @ fb))) [])
         \<longrightarrow> length rs = 1000"
    by blast
  define new where "new = new_events s s'"
  have new: "new = paged_events ds 1 rs @ map (ListDocuments ds) fb"
    unfolding new_def using run(1) by (rule new_eventsI)
  note sh = listing_shape[OF new]
  have no: "new_out s s' = xs" using run(7) by (rule new_outI)
  have c1: "paged_log new \<noteq> []" using sh(2) run(2) by auto
  have c2: "length (paged_log new) \<le> 1000" using sh(2) run(3) by simp
  have c3: "map (\<lambda>(page, page_size, reply). (page, page_size)) (paged_log new)
          = map (\<lambda>page. (page, 50)) [1..<Suc (length (paged_log new))]"
    using sh(4) unfolding sh(2) .
  have c4: "\<forall>reply \<in> set (butlast (map (snd \<circ> snd) (paged_log new))). full_page reply"
    unfolding sh(1) by (rule run(4))
  have c5: "full_page (last (map (snd \<circ> snd) (paged_log new)))
          \<and> \<not> is_error (add_documents (concat (map reply_docs
                 (map (snd \<circ> snd) (paged_log new) @ unpaged_log new))) [])
         \<longrightarrow> length (paged_log new) = 1000
             \<and> Log WARNING (OfExisting PageLimitReached) \<in> set (new_out s s')"
    unfolding sh(1) sh(2) sh(3) no using run(8,9) by blast
  have c6: "new = map (\<lambda>(page, page_size, reply). ListDocumentsPaged ds page page_size reply)
              (paged_log new) @ map (ListDocuments ds) (unpaged_log new)"
    by (rule sh(5))
  have c7: "if last (map (snd \<circ> snd) (paged_log new)) = Inl TypeError
         then length (unpaged_log new) = 1 else unpaged_log new = []"
    unfolding sh(1) sh(3) by (rule run(5))
  have c8: "(\<forall>ev \<in> set new. listing_error ev = None) \<longrightarrow>
           existing_docs
             = (case add_documents (concat (map reply_docs
                      (map (snd \<circ> snd) (paged_log new) @ unpaged_log new))) [] of
                  Inr found \<Rightarrow> found | Inl e \<Rightarrow> [])"
  proof
    assume ok: "\<forall>ev \<in> set new. listing_error ev = None"
    have "\<not> ((\<exists>reply \<in> set rs. fatal_reply reply) \<or> (\<exists>reply \<in> set fb. is_error reply))"
    proof
      assume "(\<exists>reply \<in> set rs. fatal_reply reply) \<or> (\<exists>reply \<in> set fb. is_error reply)"
      then show False
      proof
        assume "\<exists>reply \<in> set rs. fatal_reply reply"
        then obtain i where i: "i < length rs" "fatal_reply (rs ! i)"
          by (metis in_set_conv_nth)
        have "paged_events ds 1 rs ! i = ListDocumentsPaged ds (1 + i) 50 (rs ! i)"
          unfolding paged_events_zip using i(1) by (simp add: nth_enumerate_eq)
        moreover have "i < length (paged_events ds 1 rs)"
          unfolding paged_events_zip using i(1) by simp
        ultimately have "ListDocumentsPaged ds (1 + i) 50 (rs ! i) \<in> set new"
          unfolding new by (metis nth_mem UnI1 set_append)
        with ok have "listing_error (ListDocumentsPaged ds (1 + i) 50 (rs ! i)) = None" by blast
        with i(2) show False
          by (auto simp: listing_error_def fatal_reply_def split: sum.splits if_splits)
      next
        assume "\<exists>reply \<in> set fb. is_error reply"
        then obtain reply where r: "reply \<in> set fb" "is_error reply" by blast
        then have "ListDocuments ds reply \<in> set new" unfolding new by simp
        with ok have "listing_error (ListDocuments ds reply) = None" by blast
        with r(2) show False by (auto simp: listing_error_def is_error_def split: sum.splits)
      qed
    qed
    with run(6) show "existing_docs
             = (case add_documents (concat (map reply_docs
                      (map (snd \<circ> snd) (paged_log new) @ unpaged_log new))) [] of
                  Inr found \<Rightarrow> found | Inl e \<Rightarrow> [])"
      unfolding sh(1) sh(3) by simp
  qed
  have c0: "hd (paged_log new) = (1, 50, fst (list_documents_paged c ds 1 50 (world s)))"
  proof -
    from first_listing_call[OF assms] obtain rest where
      "new = ListDocumentsPaged ds 1 50 (fst (list_documents_paged c ds 1 50 (world s))) # rest"
      unfolding new_def by blast
    then show ?thesis by (simp add: paged_log_def)
  qed
  from c0 c1 c2 c3 c4 c5 c6 c7 c8 show ?thesis unfolding new_def by blast
qed

text \<open>
  Two services. The first answers page 1 with fifty documents and raises \<open>TypeError\<close>
  on page 2: the listing is two paginated calls and one unpaginated call, and the
  mapping holds the documents of page 1 and of the unpaginated call. The second answers
  every page with fifty documents: the listing stops after exactly 1000 pages, with the
  warning.
\<close>

theorem paging_is_bounded_with_fallback_witness:
  "new_events start (snd (get_existing_documents fallback_client kb start))
     = [ListDocumentsPaged kb 1 50 (Inr fifty),
        ListDocumentsPaged kb 2 50 (Inl TypeError),
        ListDocuments kb (Inr [remote_doc ''b.md''])]
   \<and> length (unpaged_log (new_events start (snd (get_existing_documents fallback_client kb start)))) = 1
   \<and> fst (get_existing_documents fallback_client kb start)
       = [(''a.md'', remote_doc ''a.md''), (''b.md'', remote_doc ''b.md'')]
   \<and> length (paged_log (new_events start (snd (get_existing_documents endless_client kb start)))) = 1000
   \<and> Log WARNING (OfExisting PageLimitReached)
       \<in> set (new_out start (snd (get_existing_documents endless_client kb start)))"
proof -
  define g where "g = get_existing_documents fallback_client kb start"
  define new where "new = new_events start (snd g)"
  have h: "get_existing_documents fallback_client kb start = (fst g, snd g)"
    by (simp add: g_def)
  have n: "new = [ListDocumentsPaged kb 1 50 (Inr fifty), ListDocumentsPaged kb 2 50 (Inl TypeError),
        ListDocuments kb (Inr [remote_doc ''b.md''])]"
    unfolding new_def g_def by (rule fallback_listing(2))
  have pl: "map (snd \<circ> snd) (paged_log new) = [Inr fifty, Inl TypeError]"
    "unpaged_log new = [Inr [remote_doc ''b.md'']]"
    unfolding n by (simp_all add: paged_log_def unpaged_log_def)
  have ok: "\<forall>ev \<in> set new. listing_error ev = None"
    unfolding n by (simp add: listing_error_def)
  have docs: "add_documents (concat (map reply_docs ([Inr fifty, Inl TypeError] @ [Inr [remote_doc ''b.md'']]))) []
         = Inr [(''a.md'', remote_doc ''a.md''), (''b.md'', remote_doc ''b.md'')]"
    by (simp add: reply_docs_def add_documents_append fifty doc_key_def remote_doc_def)
  note t = paging_is_bounded_with_fallback[OF h, folded new_def, unfolded pl]
  have a: "length (unpaged_log new) = 1" unfolding pl by simp
  have b: "fst g = [(''a.md'', remote_doc ''a.md''), (''b.md'', remote_doc ''b.md'')]"
    using t ok unfolding docs by simp
  define g' where "g' = get_existing_documents endless_client kb start"
  define new' where "new' = new_events start (snd g')"
  have h': "get_existing_documents endless_client kb start = (fst g', snd g')"
    by (simp add: g'_def)
  have n': "new' = paged_events kb 1 (replicate 1000 (Inr fifty)) @ map (ListDocuments kb) []"
    unfolding new'_def g'_def by (simp add: endless_listing(2))
  note sh = listing_shape[OF n']
  have full: "full_page (last (map (snd \<circ> snd) (paged_log new')))"
    unfolding sh(1) by (simp add: full_page_def fifty)
  have noerr: "\<not> is_error (add_documents (concat (map reply_docs
                 (map (snd \<circ> snd) (paged_log new') @ unpaged_log new'))) [])"
    by (rule add_documents_no_error) (auto simp: sh(1) sh(3) reply_docs_def fifty)
  note t' = paging_is_bounded_with_fallback[OF h', folded new'_def]
  from t' full noerr have c: "length (paged_log new') = 1000"
    "Log WARNING (OfExisting PageLimitReached) \<in> set (new_out start (snd g'))"
    by blast+
  show ?thesis
    using n a b c unfolding new_def new'_def g_def g'_def by simp
qed

end
